theory Spec2Isabelle
  imports Complex_Main "HOL-Library.Word"
begin

unbundle bit_operations_syntax

section \<open>Connect-N engine: data model\<close>

text \<open>
  The repository holds two implementations of one engine: the JavaScript port
  (\<^verbatim>\<open>Connect4Game.js\<close>) and the C original it was ported from (\<^verbatim>\<open>c4.c\<close>).
  The JavaScript game is modelled in full; of the C original the parts are modelled
  where the two differ (names prefixed \<open>c4_\<close> or \<open>c_\<close>, as in the C file).

  Numbers: board cells, potentials and scores are integers (\<open>int\<close>); the two places
  where JavaScript leaves the integers are written out: \<^verbatim>\<open><<\<close> works on 32-bit
  two's complement values, and \<^verbatim>\<open>/\<close> is a division of fractions.
\<close>

record game =
  cols :: nat
  rows :: nat
  connect :: nat

text \<open>\<^verbatim>\<open>currentState\<close> of the JavaScript game. \<open>board ! x ! y\<close> is column \<open>x\<close>, row \<open>y\<close>;
  \<open>stats ! p ! l\<close> is the potential of player \<open>p\<close> on line \<open>l\<close>; \<open>map_s ! x ! y\<close> lists the
  lines through a cell. The display field \<^verbatim>\<open>winningCoords\<close> is not modelled.\<close>

record gstate =
  numberOfPieces :: int
  winner :: int
  tie :: bool
  gameOver :: bool
  board :: "int list list"
  stats :: "int list list"
  map_s :: "nat list list list"
  score :: "int list"

datatype error = NotAValidColumn | TypeError

text \<open>\<^verbatim>\<open>this._none = -1\<close>\<close>

definition none :: int where
  "none = - 1"

text \<open>JavaScript \<^verbatim>\<open>a << b\<close>: the left operand as a 32-bit integer, the shift count
  modulo 32, the result read as a signed 32-bit integer.\<close>

definition js_shl :: "int \<Rightarrow> nat \<Rightarrow> int" where
  "js_shl a b = sint (push_bit (b mod 32) (word_of_int a :: 32 word))"

text \<open>\<^verbatim>\<open>this._magicWinningNumber = 1 << this._connect\<close>\<close>

definition magicWinningNumber :: "game \<Rightarrow> int" where
  "magicWinningNumber g = js_shl 1 (connect g)"

text \<open>\<^verbatim>\<open>_other\<close>: \<^verbatim>\<open>player ^ 1\<close>\<close>

definition other :: "nat \<Rightarrow> nat" where
  "other player = player XOR 1"

section \<open>Lines\<close>

text \<open>\<^verbatim>\<open>_findWinningPlaces\<close> (C: \<^verbatim>\<open>num_of_win_places\<close>)\<close>

definition findWinningPlaces :: "game \<Rightarrow> int" where
  "findWinningPlaces g =
     (let x = int (cols g); y = int (rows g); n = int (connect g) in
      if x < n \<and> y < n then 0
      else if x < n then x * ((y - n) + 1)
      else if y < n then y * ((x - n) + 1)
      else 4*x*y - 3*x*n - 3*y*n + 3*x + 3*y - 4*n + 2*n*n + 2)"

text \<open>\<^verbatim>\<open>map[x][y].push(winIndex)\<close>\<close>

definition push_win :: "nat list list list \<Rightarrow> nat \<Rightarrow> nat \<Rightarrow> nat \<Rightarrow> nat list list list" where
  "push_win m x y winIndex = m[x := (m ! x)[y := (m ! x ! y) @ [winIndex]]]"

text \<open>The innermost loop of each pass, \<^verbatim>\<open>for (k=0; k<connect; k++)\<close>, pushes the current
  \<^verbatim>\<open>winIndex\<close> to the cell \<open>cell k\<close>; after it \<^verbatim>\<open>winIndex++\<close>.\<close>

definition add_line :: "(nat \<Rightarrow> nat \<times> nat) \<Rightarrow> nat \<Rightarrow> nat list list list \<times> nat \<Rightarrow> nat list list list \<times> nat" where
  "add_line cell n mw =
     (fold (\<lambda>k m. push_win m (fst (cell k)) (snd (cell k)) (snd mw)) [0..<n] (fst mw), Suc (snd mw))"

text \<open>The bound \<^verbatim>\<open>cols - connect + 1\<close> of the \<open>j\<close> loops, and \<^verbatim>\<open>rows - connect + 1\<close>.\<close>

definition span :: "nat \<Rightarrow> nat \<Rightarrow> nat" where
  "span sz n = nat (int sz - int n + 1)"

definition horizontal :: "game \<Rightarrow> nat list list list \<times> nat \<Rightarrow> nat list list list \<times> nat" where
  "horizontal g =
     fold (\<lambda>i. fold (\<lambda>j. add_line (\<lambda>k. (j + k, i)) (connect g)) [0..<span (cols g) (connect g)])
       [0..<rows g]"

definition vertical :: "game \<Rightarrow> nat list list list \<times> nat \<Rightarrow> nat list list list \<times> nat" where
  "vertical g =
     fold (\<lambda>i. fold (\<lambda>j. add_line (\<lambda>k. (i, j + k)) (connect g)) [0..<span (rows g) (connect g)])
       [0..<cols g]"

definition forward_diagonal :: "game \<Rightarrow> nat list list list \<times> nat \<Rightarrow> nat list list list \<times> nat" where
  "forward_diagonal g =
     fold (\<lambda>i. fold (\<lambda>j. add_line (\<lambda>k. (j + k, i + k)) (connect g)) [0..<span (cols g) (connect g)])
       [0..<span (rows g) (connect g)]"

text \<open>\<^verbatim>\<open>for (j=cols-1; j>=connect-1; j--)\<close>\<close>

definition backward_diagonal :: "game \<Rightarrow> nat list list list \<times> nat \<Rightarrow> nat list list list \<times> nat" where
  "backward_diagonal g =
     fold (\<lambda>i. fold (\<lambda>j. add_line (\<lambda>k. (j - k, i + k)) (connect g)) (rev [connect g - 1..<cols g]))
       [0..<span (rows g) (connect g)]"

text \<open>\<^verbatim>\<open>_setupMap\<close>: the empty lists, then the four passes. The result is the map and the
  final \<^verbatim>\<open>winIndex\<close>, the number of line ids handed out.\<close>

definition setupMap :: "game \<Rightarrow> nat list list list \<times> nat" where
  "setupMap g =
     backward_diagonal g (forward_diagonal g (vertical g (horizontal g
       (replicate (cols g) (replicate (rows g) []), 0))))"

section \<open>Drop order\<close>

text \<open>\<^verbatim>\<open>_setupDropOrder\<close>. \<^verbatim>\<open>(this._cols-1) / 2\<close> is JavaScript's division, so the
  columns are fractions.\<close>

fun dropOrder_loop :: "nat \<Rightarrow> nat \<Rightarrow> rat \<Rightarrow> rat list" where
  "dropOrder_loop 0 i column = []"
| "dropOrder_loop (Suc k) i column =
     column # dropOrder_loop k (Suc i) (column + (if i mod 2 \<noteq> 0 then of_nat i else - of_nat i))"

definition setupDropOrder :: "game \<Rightarrow> rat list" where
  "setupDropOrder g = dropOrder_loop (cols g) 1 ((of_nat (cols g) - 1) / 2)"

text \<open>The C original, \<^verbatim>\<open>c4_new_game\<close>: \<^verbatim>\<open>column = (size_x-1) / 2\<close> on \<^verbatim>\<open>int\<close>.\<close>

fun c_drop_order_loop :: "nat \<Rightarrow> nat \<Rightarrow> int \<Rightarrow> int list" where
  "c_drop_order_loop 0 i column = []"
| "c_drop_order_loop (Suc k) i column =
     column # c_drop_order_loop k (Suc i) (column + (if i mod 2 \<noteq> 0 then int i else - int i))"

definition c_drop_order :: "nat \<Rightarrow> int list" where
  "c_drop_order size_x = c_drop_order_loop size_x 1 ((int size_x - 1) div 2)"

section \<open>A new game\<close>

text \<open>The constructor: \<^verbatim>\<open>_setupBoard\<close>, \<^verbatim>\<open>_setupPlayerStats\<close>, \<^verbatim>\<open>_setupMap\<close> on the first
  state of the stack.\<close>

definition setupBoard :: "game \<Rightarrow> int list list" where
  "setupBoard g = replicate (cols g) (replicate (rows g) none)"

definition setupPlayerStats :: "game \<Rightarrow> int list list" where
  "setupPlayerStats g =
     [replicate (nat (findWinningPlaces g)) 1, replicate (nat (findWinningPlaces g)) 1]"

definition Connect4Game :: "game \<Rightarrow> gstate" where
  "Connect4Game g =
     \<lparr> numberOfPieces = 0, winner = none, tie = False, gameOver = False,
       board = setupBoard g, stats = setupPlayerStats g, map_s = fst (setupMap g),
       score = [findWinningPlaces g, findWinningPlaces g] \<rparr>"

section \<open>Dropping a piece\<close>

text \<open>\<^verbatim>\<open>isTie\<close>\<close>

definition isTie :: "game \<Rightarrow> gstate \<Rightarrow> bool" where
  "isTie g s \<longleftrightarrow> winner s = none \<and> numberOfPieces s \<ge> int (cols g) * int (rows g)"

text \<open>A JavaScript array read: \<^verbatim>\<open>undefined\<close> (\<open>None\<close>) beyond the end.\<close>

definition js_nth :: "'a list \<Rightarrow> nat \<Rightarrow> 'a option" where
  "js_nth xs i = (if i < length xs then Some (xs ! i) else None)"

text \<open>\<^verbatim>\<open>while (col[row] !== this._none && (++row < this._rows));\<close> The result is the
  value of \<^verbatim>\<open>row\<close> after the loop.\<close>

function scan_col :: "game \<Rightarrow> int list \<Rightarrow> nat \<Rightarrow> nat" where
  "scan_col g col row =
     (if js_nth col row \<noteq> Some none
      then (if Suc row < rows g then scan_col g col (Suc row) else Suc row)
      else row)"
  by pat_completeness auto
termination
  by (relation "measure (\<lambda>(g, col, row). rows g - row)") auto

declare scan_col.simps [simp del]

text \<open>The loop of \<^verbatim>\<open>_updateScore\<close> (C: \<^verbatim>\<open>update_score\<close>) over the lines through the cell.
  \<^verbatim>\<open>stats[player][winIndex] <<= 1\<close> is the 32-bit shift.\<close>

fun score_loop :: "game \<Rightarrow> nat \<Rightarrow> nat list \<Rightarrow> int \<times> int \<times> gstate \<Rightarrow> int \<times> int \<times> gstate" where
  "score_loop g player [] acc = acc"
| "score_loop g player (winIndex # rest) (thisDiff, otherDiff, s) =
     (let otherPlayer = other player;
          thisDiff' = thisDiff + stats s ! player ! winIndex;
          otherDiff' = otherDiff + stats s ! otherPlayer ! winIndex;
          st1 = (stats s)[player := (stats s ! player)[winIndex := js_shl (stats s ! player ! winIndex) 1]];
          st2 = st1[otherPlayer := (st1 ! otherPlayer)[winIndex := 0]];
          s1 = s\<lparr>stats := st2\<rparr>;
          s2 = (if st2 ! player ! winIndex = magicWinningNumber g
                then (if winner s1 = none then s1\<lparr>winner := int player\<rparr> else s1)
                else s1)
      in score_loop g player rest (thisDiff', otherDiff', s2))"

definition updateScore :: "game \<Rightarrow> nat \<Rightarrow> nat \<Rightarrow> nat \<Rightarrow> gstate \<Rightarrow> gstate" where
  "updateScore g player column row s =
     (case score_loop g player (map_s s ! column ! row) (0, 0, s) of
        (thisDiff, otherDiff, s1) \<Rightarrow>
          (let otherPlayer = other player;
               sc1 = (score s1)[player := score s1 ! player + thisDiff];
               sc2 = sc1[otherPlayer := sc1 ! otherPlayer - otherDiff];
               s2 = s1\<lparr>score := sc2\<rparr>
           in if winner s2 > - 1 \<or> isTie g s2
              then s2\<lparr>gameOver := True, tie := isTie g s2\<rparr>
              else s2))"

text \<open>\<^verbatim>\<open>_dropPiece\<close>: the row where the piece ended up, or \<open>-1\<close>, and the state after.\<close>

definition dropPiece :: "game \<Rightarrow> nat \<Rightarrow> nat \<Rightarrow> gstate \<Rightarrow> int \<times> gstate" where
  "dropPiece g player column s =
     (let col = board s ! column;
          row = scan_col g col 0
      in if row = rows g then (- 1, s)
         else
           let s1 = s\<lparr>board := (board s)[column := (board s ! column)[row := int player]]\<rparr>;
               s2 = s1\<lparr>numberOfPieces := numberOfPieces s1 + 1\<rparr>
           in (int row, updateScore g player column row s2))"

text \<open>A column read from a JavaScript number: \<^verbatim>\<open>this.currentState.board[column]\<close> is
  \<^verbatim>\<open>undefined\<close> unless the number is an index of the array, and \<^verbatim>\<open>col[row]\<close> then throws
  a TypeError before anything is written.\<close>

definition dropPiece_at :: "game \<Rightarrow> nat \<Rightarrow> rat \<Rightarrow> gstate \<Rightarrow> error + (int \<times> gstate)" where
  "dropPiece_at g player column s =
     (if of_int \<lfloor>column\<rfloor> = column \<and> 0 \<le> column \<and> nat \<lfloor>column\<rfloor> < length (board s)
      then Inr (dropPiece g player (nat \<lfloor>column\<rfloor>) s)
      else Inl TypeError)"

text \<open>\<^verbatim>\<open>makeMove\<close>: the column check, then the drop.\<close>

definition makeMove :: "game \<Rightarrow> nat \<Rightarrow> rat \<Rightarrow> gstate \<Rightarrow> error + (int \<times> gstate)" where
  "makeMove g player column s =
     (if column \<ge> of_nat (cols g) \<or> column < 0 then Inl NotAValidColumn
      else dropPiece_at g player column s)"

text \<open>A game in progress: the state after a sequence of \<^verbatim>\<open>makeMove\<close> calls
  \<open>(player, column)\<close>. A call that throws leaves the state as it was.\<close>

fun play :: "game \<Rightarrow> (nat \<times> rat) list \<Rightarrow> gstate \<Rightarrow> gstate" where
  "play g [] s = s"
| "play g ((player, column) # ms) s =
     (case makeMove g player column s of
        Inl e \<Rightarrow> play g ms s
      | Inr (row, s') \<Rightarrow> play g ms s')"

section \<open>The state stack\<close>

text \<open>\<^verbatim>\<open>_stateStack\<close> is the list of states, \<^verbatim>\<open>currentState\<close> its last element.
  \<^verbatim>\<open>_clone\<close> on a state copies every own property; an array is copied element by
  element, a number or boolean is taken as it is.\<close>

definition clone :: "gstate \<Rightarrow> gstate" where
  "clone s =
     \<lparr> numberOfPieces = numberOfPieces s, winner = winner s, tie = tie s, gameOver = gameOver s,
       board = map (map (\<lambda>v. v)) (board s),
       stats = map (map (\<lambda>v. v)) (stats s),
       map_s = map (map (map (\<lambda>v. v))) (map_s s),
       score = map (\<lambda>v. v) (score s) \<rparr>"

definition currentState :: "gstate list \<Rightarrow> gstate" where
  "currentState st = last st"

definition pushState :: "gstate list \<Rightarrow> gstate list" where
  "pushState st = st @ [clone (st ! (length st - 1))]"

definition popState :: "gstate list \<Rightarrow> gstate list" where
  "popState st = butlast st"

text \<open>A drop on the stack works on \<^verbatim>\<open>currentState\<close>.\<close>

definition dropPiece_st :: "game \<Rightarrow> nat \<Rightarrow> rat \<Rightarrow> gstate list \<Rightarrow> error + (int \<times> gstate list)" where
  "dropPiece_st g player column st =
     (case dropPiece_at g player column (currentState st) of
        Inl e \<Rightarrow> Inl e
      | Inr (row, s') \<Rightarrow> Inr (row, butlast st @ [s']))"


section \<open>The C original\<close>

text \<open>\<^verbatim>\<open>c4.h\<close>: \<^verbatim>\<open>#define C4_NONE 2\<close>, \<^verbatim>\<open>#define C4_MAX_LEVEL 20\<close>; \<^verbatim>\<open>INT_MAX\<close> of a 32-bit
  \<^verbatim>\<open>int\<close>.\<close>

definition C4_NONE :: int where
  "C4_NONE = 2"

definition C4_MAX_LEVEL :: int where
  "C4_MAX_LEVEL = 20"

definition INT_MAX :: int where
  "INT_MAX = 2147483647"

text \<open>\<^verbatim>\<open>Game_state\<close>\<close>

record Game_state =
  c_board :: "int list list"
  score_array :: "int list list"
  c_score :: "int list"
  c_winner :: int
  num_of_pieces :: int

text \<open>\<^verbatim>\<open>c4_new_game\<close>: the first state of the stack. The map is filled by the same four
  passes as in \<open>setupMap\<close>, and \<^verbatim>\<open>num_of_win_places\<close> is \<open>findWinningPlaces\<close>.\<close>

definition c4_new_game :: "game \<Rightarrow> Game_state" where
  "c4_new_game g =
     \<lparr> c_board = replicate (cols g) (replicate (rows g) C4_NONE),
       score_array = [replicate (nat (findWinningPlaces g)) 1, replicate (nat (findWinningPlaces g)) 1],
       c_score = [findWinningPlaces g, findWinningPlaces g],
       c_winner = C4_NONE, num_of_pieces = 0 \<rparr>"

text \<open>\<^verbatim>\<open>update_score\<close>: the loop, then the two scores. \<^verbatim>\<open><<= 1\<close> on a 32-bit \<^verbatim>\<open>int\<close>.\<close>

fun c_score_loop :: "game \<Rightarrow> nat \<Rightarrow> nat list \<Rightarrow> int \<times> int \<times> Game_state \<Rightarrow> int \<times> int \<times> Game_state" where
  "c_score_loop g player [] acc = acc"
| "c_score_loop g player (win_index # rest) (this_difference, other_difference, s) =
     (let other_player = other player;
          this_difference' = this_difference + score_array s ! player ! win_index;
          other_difference' = other_difference + score_array s ! other_player ! win_index;
          a1 = (score_array s)[player :=
                 (score_array s ! player)[win_index := js_shl (score_array s ! player ! win_index) 1]];
          a2 = a1[other_player := (a1 ! other_player)[win_index := 0]];
          s1 = s\<lparr>score_array := a2\<rparr>;
          s2 = (if a2 ! player ! win_index = js_shl 1 (connect g)
                then (if c_winner s1 = C4_NONE then s1\<lparr>c_winner := int player\<rparr> else s1)
                else s1)
      in c_score_loop g player rest (this_difference', other_difference', s2))"

definition update_score :: "game \<Rightarrow> nat \<Rightarrow> nat \<Rightarrow> nat \<Rightarrow> Game_state \<Rightarrow> Game_state" where
  "update_score g player x y s =
     (case c_score_loop g player (fst (setupMap g) ! x ! y) (0, 0, s) of
        (this_difference, other_difference, s1) \<Rightarrow>
          (let other_player = other player;
               sc1 = (c_score s1)[player := c_score s1 ! player + this_difference];
               sc2 = sc1[other_player := sc1 ! other_player - other_difference]
           in s1\<lparr>c_score := sc2\<rparr>))"

text \<open>\<^verbatim>\<open>while (current_state->board[column][y] != C4_NONE && ++y < size_y)\<close>\<close>

function c_scan :: "game \<Rightarrow> int list \<Rightarrow> nat \<Rightarrow> nat" where
  "c_scan g col y =
     (if js_nth col y \<noteq> Some C4_NONE
      then (if Suc y < rows g then c_scan g col (Suc y) else Suc y)
      else y)"
  by pat_completeness auto
termination
  by (relation "measure (\<lambda>(g, col, y). rows g - y)") auto

declare c_scan.simps [simp del]

text \<open>\<^verbatim>\<open>drop_piece\<close>\<close>

definition drop_piece :: "game \<Rightarrow> nat \<Rightarrow> nat \<Rightarrow> Game_state \<Rightarrow> int \<times> Game_state" where
  "drop_piece g player column s =
     (let y = c_scan g (c_board s ! column) 0
      in if y = rows g then (- 1, s)
         else
           let s1 = s\<lparr>c_board := (c_board s)[column := (c_board s ! column)[y := int player]]\<rparr>;
               s2 = s1\<lparr>num_of_pieces := num_of_pieces s1 + 1\<rparr>
           in (int y, update_score g player column y s2))"

text \<open>\<^verbatim>\<open>real_player(x)\<close>: \<^verbatim>\<open>x & 1\<close>\<close>

definition real_player :: "int \<Rightarrow> nat" where
  "real_player x = nat (x AND 1)"

text \<open>\<^verbatim>\<open>c4_make_move\<close>: \<open>None\<close> is \<^verbatim>\<open>FALSE\<close> (invalid or full column), otherwise the row.\<close>

definition c4_make_move :: "game \<Rightarrow> int \<Rightarrow> int \<Rightarrow> Game_state \<Rightarrow> int option \<times> Game_state" where
  "c4_make_move g player column s =
     (if column \<ge> int (cols g) \<or> column < 0 then (None, s)
      else
        (case drop_piece g (real_player player) (nat column) s of
           (result, s') \<Rightarrow> (if result \<ge> 0 then Some result else None, s')))"

fun c_play :: "game \<Rightarrow> (int \<times> int) list \<Rightarrow> Game_state \<Rightarrow> Game_state" where
  "c_play g [] s = s"
| "c_play g ((player, column) # ms) s = c_play g ms (snd (c4_make_move g player column s))"

text \<open>\<^verbatim>\<open>c4_is_tie\<close>\<close>

definition c4_is_tie :: "game \<Rightarrow> Game_state \<Rightarrow> bool" where
  "c4_is_tie g s \<longleftrightarrow> num_of_pieces s = int (cols g) * int (rows g)"

text \<open>The opening shortcut of \<^verbatim>\<open>c4_auto_move\<close>: the condition of its first \<^verbatim>\<open>if\<close>.\<close>

definition c_opening_shortcut :: "game \<Rightarrow> Game_state \<Rightarrow> bool" where
  "c_opening_shortcut g s \<longleftrightarrow>
     num_of_pieces s < 2 \<and> cols g = 7 \<and> rows g = 6 \<and> connect g = 4 \<and>
     (num_of_pieces s = 0 \<or> c_board s ! 3 ! 0 \<noteq> C4_NONE)"

text \<open>The comparison at the end of the root loop's body in \<^verbatim>\<open>c4_auto_move\<close>, on
  \<open>(best_column, best_worst, num_of_equal)\<close>. \<open>r\<close> is the value of \<^verbatim>\<open>rand()\<close>; the
  product \<^verbatim>\<open>((float)1/(float)num_of_equal) * 10000\<close> is taken as the exact fraction.\<close>

definition c_root_compare :: "int \<times> int \<times> int \<Rightarrow> int \<Rightarrow> int \<Rightarrow> nat \<Rightarrow> int \<times> int \<times> int" where
  "c_root_compare b current_column goodness r =
     (case b of (best_column, best_worst, num_of_equal) \<Rightarrow>
        if goodness > best_worst then (current_column, goodness, 1)
        else if goodness = best_worst
        then (let num_of_equal' = num_of_equal + 1 in
              (if (of_nat (r mod 10000) :: rat) < (1 / of_int num_of_equal') * 10000
               then current_column else best_column,
               best_worst, num_of_equal'))
        else (best_column, best_worst, num_of_equal))"

text \<open>The value \<^verbatim>\<open>evaluate\<close> gives to a drop that wins: \<^verbatim>\<open>goodness = INT_MAX - depth\<close>,
  on 32-bit \<^verbatim>\<open>int\<close>.\<close>

definition c_win_value :: "int \<Rightarrow> int" where
  "c_win_value depth = sint (word_of_int INT_MAX - word_of_int depth :: 32 word)"

section \<open>Notions used in the statements\<close>

text \<open>The offset of the \<open>j\<close>-th entry of the C drop order from its first entry:
  \<open>0, +1, -1, +2, -2, \<dots>\<close>\<close>

definition c_offset :: "nat \<Rightarrow> int" where
  "c_offset j = (if odd j then int (Suc j div 2) else - int (j div 2))"

text \<open>The number of occupied cells of a board.\<close>

definition occupied :: "int list list \<Rightarrow> nat" where
  "occupied b = sum_list (map (\<lambda>col. length (filter (\<lambda>v. v \<noteq> none) col)) b)"

text \<open>The board has \<open>cols\<close> columns of \<open>rows\<close> cells.\<close>

definition board_ok :: "game \<Rightarrow> int list list \<Rightarrow> bool" where
  "board_ok g b \<longleftrightarrow> length b = cols g \<and> (\<forall>col\<in>set b. length col = rows g)"

text \<open>The piece count is the number of occupied cells.\<close>

definition pieces_inv :: "game \<Rightarrow> gstate \<Rightarrow> bool" where
  "pieces_inv g s \<longleftrightarrow> board_ok g (board s) \<and> numberOfPieces s = int (occupied (board s))"

text \<open>Games used as examples: the standard board, and small ones.\<close>

definition standard :: game where
  "standard = \<lparr>cols = 7, rows = 6, connect = 4\<rparr>"

definition game_1x2 :: game where
  "game_1x2 = \<lparr>cols = 1, rows = 2, connect = 2\<rparr>"

definition game_1x1 :: game where
  "game_1x1 = \<lparr>cols = 1, rows = 1, connect = 1\<rparr>"

text \<open>The cells a line passes through, read off the map.\<close>

definition cells_of :: "nat list list list \<Rightarrow> nat \<Rightarrow> (nat \<times> nat) set" where
  "cells_of m l = {(x, y). x < length m \<and> y < length (m ! x) \<and> l \<in> set (m ! x ! y)}"

text \<open>What the four passes keep true of the map and the next \<^verbatim>\<open>winIndex\<close>: the map has the board's shape,
  a cell lists a line once, every listed id is below \<^verbatim>\<open>winIndex\<close>, and a line has at most
  \<open>connect\<close> cells.\<close>

definition map_ok :: "game \<Rightarrow> nat list list list \<times> nat \<Rightarrow> bool" where
  "map_ok g mw \<longleftrightarrow>
     length (fst mw) = cols g \<and> (\<forall>x<cols g. length (fst mw ! x) = rows g) \<and>
     (\<forall>x<cols g. \<forall>y<rows g. distinct (fst mw ! x ! y) \<and> (\<forall>l\<in>set (fst mw ! x ! y). l < snd mw)) \<and>
     (\<forall>l. card (cells_of (fst mw) l) \<le> connect g)"

text \<open>The \<open>connect\<close> cells of one line lie on the board and are different cells.\<close>

definition good_cell :: "game \<Rightarrow> (nat \<Rightarrow> nat \<times> nat) \<Rightarrow> bool" where
  "good_cell g cell \<longleftrightarrow>
     (\<forall>k<connect g. fst (cell k) < cols g \<and> snd (cell k) < rows g) \<and> inj_on cell {..<connect g}"

text \<open>One iteration of the loop of \<^verbatim>\<open>_updateScore\<close>.\<close>

definition score_step :: "game \<Rightarrow> nat \<Rightarrow> nat \<Rightarrow> int \<times> int \<times> gstate \<Rightarrow> int \<times> int \<times> gstate" where
  "score_step g player winIndex acc = score_loop g player [winIndex] acc"

text \<open>The number of occupied cells of a line.\<close>

definition occ :: "nat list list list \<Rightarrow> int list list \<Rightarrow> nat \<Rightarrow> nat" where
  "occ m b l = card {(x, y). (x, y) \<in> cells_of m l \<and> b ! x ! y \<noteq> none}"

text \<open>The shape of a state, and the bound on its potentials: a potential is between 0 and
  \<open>2 ^ k\<close>, where \<open>k\<close> is the number of occupied cells of the line.\<close>

definition potentials_ok :: "game \<Rightarrow> gstate \<Rightarrow> bool" where
  "potentials_ok g s \<longleftrightarrow>
     board_ok g (board s) \<and> map_s s = fst (setupMap g) \<and> length (stats s) = 2 \<and> length (score s) = 2 \<and>
     (\<forall>p<2. length (stats s ! p) = snd (setupMap g)) \<and>
     (\<forall>p<2. \<forall>l < snd (setupMap g).
        0 \<le> stats s ! p ! l \<and> stats s ! p ! l \<le> 2 ^ occ (map_s s) (board s) l)"

text \<open>The invariant of the scores: each score is the sum of the player's potentials, and the
  two potentials of a line are not both non-zero unless both are 1.\<close>

definition score_inv :: "gstate \<Rightarrow> bool" where
  "score_inv s \<longleftrightarrow>
     (\<forall>p<2. score s ! p = sum_list (stats s ! p)) \<and>
     (\<forall>l<length (stats s ! 0).
        stats s ! 0 ! l \<noteq> 0 \<and> stats s ! 1 ! l \<noteq> 0 \<longrightarrow> stats s ! 0 ! l = 1 \<and> stats s ! 1 ! l = 1)"

text \<open>The lines of the four passes as lists of cells, in the order of their ids, and the
  map built from such a list: the same map as \<open>setupMap\<close> (\<open>setupMap_all_lines\<close> below), in a
  form that evaluates cell by cell.\<close>

fun push_cells :: "nat list list list \<Rightarrow> (nat \<times> nat) list \<Rightarrow> nat \<Rightarrow> nat list list list" where
  "push_cells m [] w = m"
| "push_cells m ((x, y) # cs) w = push_cells (push_win m x y w) cs w"

fun add_cells :: "(nat \<times> nat) list \<Rightarrow> nat list list list \<times> nat \<Rightarrow> nat list list list \<times> nat" where
  "add_cells cs (m, w) = (push_cells m cs w, Suc w)"

definition all_lines :: "game \<Rightarrow> (nat \<times> nat) list list" where
  "all_lines g =
     concat (map (\<lambda>i. map (\<lambda>j. map (\<lambda>k. (j + k, i)) [0..<connect g]) [0..<span (cols g) (connect g)]) [0..<rows g])
   @ concat (map (\<lambda>i. map (\<lambda>j. map (\<lambda>k. (i, j + k)) [0..<connect g]) [0..<span (rows g) (connect g)]) [0..<cols g])
   @ concat (map (\<lambda>i. map (\<lambda>j. map (\<lambda>k. (j + k, i + k)) [0..<connect g]) [0..<span (cols g) (connect g)])
       [0..<span (rows g) (connect g)])
   @ concat (map (\<lambda>i. map (\<lambda>j. map (\<lambda>k. (j - k, i + k)) [0..<connect g]) (rev [connect g - 1..<cols g]))
       [0..<span (rows g) (connect g)])"



text \<open>For the examples of the search: a row of three cells with three to connect, where
  every first move is equally good; two coin values in a row; and the column of a finished
  \<open>autoMove\<close>.\<close>

definition game_3x1 :: game where
  "game_3x1 = \<lparr>cols = 3, rows = 1, connect = 3\<rparr>"

definition coins :: "nat \<Rightarrow> nat \<Rightarrow> nat \<Rightarrow> nat" where
  "coins a b n = (if n = 0 then a else b)"

definition chosen_column :: "(error + rat \<times> int \<times> gstate list) option \<Rightarrow> rat option" where
  "chosen_column r = (case r of Some (Inr (column, row, st)) \<Rightarrow> Some column | _ \<Rightarrow> None)"

section \<open>Search\<close>

text \<open>JavaScript numbers are doubles. On integers below \<open>2^53\<close> their arithmetic is the
  integers'; beyond, a result is rounded to 53 significant bits, to nearest, ties to even.
  \<open>bitlen a\<close> is the number of binary digits of \<open>a\<close>.\<close>

fun bitlen :: "nat \<Rightarrow> nat" where
  "bitlen a = (if a = 0 then 0 else Suc (bitlen (a div 2)))"

declare bitlen.simps [simp del]

definition round_double :: "int \<Rightarrow> int" where
  "round_double x =
     (let a = nat \<bar>x\<bar> in
      if bitlen a \<le> 53 then x
      else
        let e = bitlen a - 53;
            q = a div 2 ^ e;
            r = a mod 2 ^ e;
            q' = (if 2 * r < 2 ^ e \<or> (2 * r = 2 ^ e \<and> even q) then q else q + 1)
        in sgn x * int (q' * 2 ^ e))"

text \<open>\<^verbatim>\<open>Number.MAX_VALUE\<close>\<close>

definition MAX_VALUE :: int where
  "MAX_VALUE = (2 ^ 53 - 1) * 2 ^ 971"

text \<open>\<^verbatim>\<open>a - b\<close> on two integer-valued doubles\<close>

definition js_minus :: "int \<Rightarrow> int \<Rightarrow> int" where
  "js_minus a b = round_double (a - b)"

text \<open>\<^verbatim>\<open>_goodnessOf\<close>\<close>

definition goodnessOf :: "gstate \<Rightarrow> nat \<Rightarrow> int" where
  "goodnessOf s player = score s ! player - score s ! other player"

text \<open>The value \<^verbatim>\<open>_evaluate\<close> gives to a drop that wins:
  \<^verbatim>\<open>goodness = Number.MAX_VALUE - depth\<close>.\<close>

definition win_value :: "int \<Rightarrow> int" where
  "win_value depth = js_minus MAX_VALUE depth"

text \<open>\<^verbatim>\<open>_evaluate\<close>. \<open>fuel\<close> bounds the nesting of the recursion (\<open>None\<close>: used up).
  The result is the goodness and the stack as the call leaves it.\<close>

fun evaluate :: "nat \<Rightarrow> game \<Rightarrow> nat \<Rightarrow> int \<Rightarrow> int \<Rightarrow> int \<Rightarrow> gstate list
    \<Rightarrow> (error + int \<times> gstate list) option"
and evaluate_loop :: "nat \<Rightarrow> game \<Rightarrow> nat \<Rightarrow> int \<Rightarrow> int \<Rightarrow> int \<Rightarrow> rat list \<Rightarrow> int \<times> int \<Rightarrow> gstate list
    \<Rightarrow> (error + int \<times> gstate list) option" where
  "evaluate 0 g player level alpha beta st = None"
| "evaluate (Suc fuel) g player level alpha beta st =
     (let depth = int (length st) in
      if level = depth then Some (Inr (goodnessOf (currentState st) player, st))
      else evaluate_loop fuel g player level beta depth (setupDropOrder g) (- MAX_VALUE, alpha) st)"
| "evaluate_loop fuel g player level beta depth [] (best, maxab) st = Some (Inr (- best, st))"
| "evaluate_loop fuel g player level beta depth (column # rest) (best, maxab) st =
     (case dropPiece_st g (other player) column (pushState st) of
        Inl e \<Rightarrow> Some (Inl e)
      | Inr (row, st2) \<Rightarrow>
          if row < 0 then evaluate_loop fuel g player level beta depth rest (best, maxab) (popState st2)
          else
            (case (if winner (currentState st2) = int (other player)
                   then Some (Inr (win_value depth, st2))
                   else evaluate fuel g (other player) level (- beta) (- maxab) st2) of
               None \<Rightarrow> None
             | Some (Inl e) \<Rightarrow> Some (Inl e)
             | Some (Inr (goodness, st3)) \<Rightarrow>
                 (let best' = (if goodness > best then goodness else best);
                      maxab' = (if goodness > best \<and> best' > maxab then best' else maxab)
                  in if best' > beta then Some (Inr (- best', popState st3))
                     else evaluate_loop fuel g player level beta depth rest (best', maxab') (popState st3))))"

text \<open>The opening shortcut of \<^verbatim>\<open>autoMove\<close>: the condition of its first \<^verbatim>\<open>if\<close>.\<close>

definition opening_shortcut :: "game \<Rightarrow> gstate \<Rightarrow> bool" where
  "opening_shortcut g s \<longleftrightarrow>
     numberOfPieces s < 2 \<and> cols g = 7 \<and> rows g = 6 \<and> connect g = 4 \<and>
     (numberOfPieces s = 0 \<or> board s ! 3 ! 0 \<noteq> 2)"

text \<open>The comparison at the end of the root loop's body. \<open>coin\<close> is the value of
  \<^verbatim>\<open>Math.floor(Math.random()*2)\<close>, 0 or 1; it is drawn only when the goodness is equal
  and a best column exists (\<open>draws_coin\<close>).\<close>

definition root_compare :: "rat \<times> int \<Rightarrow> rat \<Rightarrow> int \<Rightarrow> nat \<Rightarrow> rat \<times> int" where
  "root_compare bb column goodness coin =
     (case bb of (bestColumn, bestWorst) \<Rightarrow>
        if goodness > bestWorst then (column, goodness)
        else if goodness = bestWorst
        then (if bestColumn = - 1 \<or> coin > 0 then (column, bestWorst) else (bestColumn, bestWorst))
        else (bestColumn, bestWorst))"

definition draws_coin :: "rat \<times> int \<Rightarrow> int \<Rightarrow> bool" where
  "draws_coin bb goodness \<longleftrightarrow>
     (case bb of (bestColumn, bestWorst) \<Rightarrow>
        \<not> goodness > bestWorst \<and> goodness = bestWorst \<and> bestColumn \<noteq> - 1)"

text \<open>The root loop of \<^verbatim>\<open>autoMove\<close> over the drop order. \<open>rnd\<close> is the sequence of coin
  values, \<open>n\<close> the number drawn so far.\<close>

fun root_loop :: "nat \<Rightarrow> game \<Rightarrow> nat \<Rightarrow> int \<Rightarrow> (nat \<Rightarrow> nat) \<Rightarrow> rat list \<Rightarrow> nat \<Rightarrow> rat \<times> int \<Rightarrow> gstate list
    \<Rightarrow> (error + rat \<times> gstate list) option" where
  "root_loop fuel g player ai rnd [] n bb st = Some (Inr (fst bb, st))"
| "root_loop fuel g player ai rnd (column # rest) n bb st =
     (case dropPiece_st g player column (pushState st) of
        Inl e \<Rightarrow> Some (Inl e)
      | Inr (row, st2) \<Rightarrow>
          if row < 0 then root_loop fuel g player ai rnd rest n bb (popState st2)
          else if winner (currentState st2) = int player then Some (Inr (column, popState st2))
          else
            (case evaluate fuel g player ai (- MAX_VALUE) (- snd bb) st2 of
               None \<Rightarrow> None
             | Some (Inl e) \<Rightarrow> Some (Inl e)
             | Some (Inr (goodness, st3)) \<Rightarrow>
                 root_loop fuel g player ai rnd rest
                   (if draws_coin bb goodness then Suc n else n)
                   (root_compare bb column goodness (rnd n))
                   (popState st3)))"

text \<open>\<^verbatim>\<open>makeMove\<close> on the stack\<close>

definition makeMove_st :: "game \<Rightarrow> nat \<Rightarrow> rat \<Rightarrow> gstate list \<Rightarrow> error + (rat \<times> int \<times> gstate list)" where
  "makeMove_st g player column st =
     (case makeMove g player column (currentState st) of
        Inl e \<Rightarrow> Inl e
      | Inr (row, s') \<Rightarrow> Inr (column, row, butlast st @ [s']))"

text \<open>\<^verbatim>\<open>autoMove\<close>: the column, the row and the stack after the move.\<close>

definition autoMove :: "nat \<Rightarrow> game \<Rightarrow> nat \<Rightarrow> int \<Rightarrow> (nat \<Rightarrow> nat) \<Rightarrow> gstate list
    \<Rightarrow> (error + (rat \<times> int \<times> gstate list)) option" where
  "autoMove fuel g player ai rnd st =
     (let ai' = max 0 (min ai 20) in
      if opening_shortcut g (currentState st) then Some (makeMove_st g player 3 st)
      else
        (case root_loop fuel g player ai' rnd (setupDropOrder g) 0 (- 1, - MAX_VALUE) st of
           None \<Rightarrow> None
         | Some (Inl e) \<Rightarrow> Some (Inl e)
         | Some (Inr (bestColumn, st')) \<Rightarrow> Some (makeMove_st g player bestColumn st')))"

section \<open>Line count\<close>

lemma snd_add_line: "snd (add_line cell n mw) = Suc (snd mw)"
  by (simp add: add_line_def)

lemma snd_fold_add_line:
  "snd (fold (\<lambda>j. add_line (cell j) n) js mw) = snd mw + length js"
  by (induction js arbitrary: mw) (simp_all add: snd_add_line)

lemma snd_fold_fold_add_line:
  "snd (fold (\<lambda>i. fold (\<lambda>j. add_line (cell i j) n) js) is mw) = snd mw + length is * length js"
  by (induction "is" arbitrary: mw) (simp_all add: snd_fold_add_line)

lemma snd_horizontal: "snd (horizontal g mw) = snd mw + rows g * span (cols g) (connect g)"
  unfolding horizontal_def by (simp add: snd_fold_fold_add_line)

lemma snd_vertical: "snd (vertical g mw) = snd mw + cols g * span (rows g) (connect g)"
  unfolding vertical_def by (simp add: snd_fold_fold_add_line)

lemma snd_forward_diagonal:
  "snd (forward_diagonal g mw) = snd mw + span (rows g) (connect g) * span (cols g) (connect g)"
  unfolding forward_diagonal_def by (simp add: snd_fold_fold_add_line)

lemma length_backward_range: "1 \<le> n \<Longrightarrow> length (rev [n - 1..<c]) = span c n"
  by (auto simp: span_def)

lemma snd_backward_diagonal:
  "1 \<le> connect g \<Longrightarrow>
   snd (backward_diagonal g mw) = snd mw + span (rows g) (connect g) * span (cols g) (connect g)"
  unfolding backward_diagonal_def
  by (simp only: snd_fold_fold_add_line length_backward_range) simp

lemma snd_setupMap:
  "1 \<le> connect g \<Longrightarrow>
   snd (setupMap g) =
     rows g * span (cols g) (connect g) + cols g * span (rows g) (connect g)
     + 2 * (span (rows g) (connect g) * span (cols g) (connect g))"
  by (simp add: setupMap_def snd_horizontal snd_vertical snd_forward_diagonal snd_backward_diagonal)

lemma span_ge: "n \<le> c \<Longrightarrow> int (span c n) = int c - int n + 1"
  by (simp add: span_def)

lemma span_less: "c < n \<Longrightarrow> span c n = 0"
  by (simp add: span_def)


lemma setupMap_count:
  assumes "1 \<le> connect g"
  shows "int (snd (setupMap g)) = findWinningPlaces g"
proof -
  let ?x = "cols g" and ?y = "rows g" and ?n = "connect g"
  have count: "int (snd (setupMap g)) =
      int ?y * int (span ?x ?n) + int ?x * int (span ?y ?n)
      + 2 * (int (span ?y ?n) * int (span ?x ?n))"
    using assms by (simp add: snd_setupMap)
  consider (both) "?x < ?n" "?y < ?n" | (narrow) "?x < ?n" "?n \<le> ?y"
    | (low) "?n \<le> ?x" "?y < ?n" | (full) "?n \<le> ?x" "?n \<le> ?y"
    by linarith
  then show ?thesis
  proof cases
    case both
    then show ?thesis
      by (simp add: count span_less findWinningPlaces_def)
  next
    case narrow
    then show ?thesis
      by (simp add: count span_less span_ge findWinningPlaces_def)
  next
    case low
    then show ?thesis
      by (simp add: count span_less span_ge findWinningPlaces_def)
  next
    case full
    then show ?thesis
      by (simp add: count span_ge findWinningPlaces_def Let_def algebra_simps)
  qed
qed

text \<open>
  \<^bold>\<open>C4.\<close> For every width, height and connect length of at least 1, the closed-form
  line count of \<open>findWinningPlaces\<close> equals the number of line ids handed out by the four
  passes of \<open>setupMap\<close>.
\<close>

theorem totalLines_closed_form_eq_enumeration:
  assumes "1 \<le> cols g" "1 \<le> rows g" "1 \<le> connect g"
  shows "int (snd (setupMap g)) = findWinningPlaces g"
  using assms(3) by (rule setupMap_count)

theorem totalLines_closed_form_eq_enumeration_witness:
  "int (snd (setupMap standard)) = findWinningPlaces standard \<and> findWinningPlaces standard = 69"
proof -
  have "1 \<le> cols standard" "1 \<le> rows standard" "1 \<le> connect standard"
    by (simp_all add: standard_def)
  from totalLines_closed_form_eq_enumeration [OF this] show ?thesis
    by (simp add: findWinningPlaces_def standard_def)
qed

section \<open>Drop order\<close>

lemma c_offset_Suc:
  "c_offset (Suc i) = c_offset i + (if Suc i mod 2 \<noteq> 0 then int (Suc i) else - int (Suc i))"
  unfolding c_offset_def by (cases "odd i") (auto elim!: oddE evenE)

lemma c_drop_order_loop_closed:
  "c_drop_order_loop k (Suc i) (c0 + c_offset i) = map (\<lambda>j. c0 + c_offset j) [i..<i + k]"
proof (induction k arbitrary: i)
  case 0
  show ?case by simp
next
  case (Suc k)
  have step: "c0 + c_offset i + (if Suc i mod 2 \<noteq> 0 then int (Suc i) else - int (Suc i))
      = c0 + c_offset (Suc i)"
    using c_offset_Suc [of i] by simp
  have "c_drop_order_loop (Suc k) (Suc i) (c0 + c_offset i)
      = (c0 + c_offset i) # c_drop_order_loop k (Suc (Suc i)) (c0 + c_offset (Suc i))"
    by (simp only: c_drop_order_loop.simps step)
  also have "\<dots> = (c0 + c_offset i) # map (\<lambda>j. c0 + c_offset j) [Suc i..<Suc i + k]"
    by (simp only: Suc.IH)
  also have "\<dots> = map (\<lambda>j. c0 + c_offset j) [i..<i + Suc k]"
    by (simp add: upt_conv_Cons del: upt_Suc)
  finally show ?case .
qed

lemma c_drop_order_closed:
  "c_drop_order size_x = map (\<lambda>j. (int size_x - 1) div 2 + c_offset j) [0..<size_x]"
  using c_drop_order_loop_closed [of size_x 0 "(int size_x - 1) div 2"]
  by (simp add: c_drop_order_def c_offset_def)

lemma c_offset_inj: "c_offset i = c_offset j \<Longrightarrow> i = j"
  unfolding c_offset_def by (auto split: if_splits elim!: oddE evenE)

lemma c_offset_range:
  assumes "j < size_x"
  shows "0 \<le> (int size_x - 1) div 2 + c_offset j" "(int size_x - 1) div 2 + c_offset j < int size_x"
  using assms unfolding c_offset_def by (auto split: if_splits elim!: oddE evenE)

text \<open>The C original's drop order is a permutation of the columns, for every width.\<close>

lemma c_drop_order_is_permutation:
  "distinct (c_drop_order size_x) \<and> set (c_drop_order size_x) = {0..<int size_x}"
proof -
  let ?f = "\<lambda>j. (int size_x - 1) div 2 + c_offset j"
  have inj: "inj_on ?f {0..<size_x}"
    by (rule inj_onI) (simp add: c_offset_inj)
  have d: "distinct (c_drop_order size_x)"
    by (simp add: c_drop_order_closed distinct_map inj)
  have sub: "set (c_drop_order size_x) \<subseteq> {0..<int size_x}"
    using c_offset_range by (auto simp: c_drop_order_closed)
  have len: "length (c_drop_order size_x) = size_x"
    by (simp add: c_drop_order_closed)
  have "card (set (c_drop_order size_x)) = size_x"
    using distinct_card [OF d] len by simp
  then have "card (set (c_drop_order size_x)) = card {0..<int size_x}"
    by simp
  with sub have "set (c_drop_order size_x) = {0..<int size_x}"
    by (simp add: card_subset_eq)
  with d show ?thesis by simp
qed

lemma c_drop_order_standard: "c_drop_order 7 = [3, 4, 2, 5, 1, 6, 0]"
  by code_simp

text \<open>
  \<^bold>\<open>C9.\<close> The claim: for every width the drop order is a permutation of the columns
  \<open>0..W-1\<close>. The C original's is (\<open>c_drop_order_is_permutation\<close>). The JavaScript port
  divides \<open>cols - 1\<close> by 2 as a fraction, and for the even width 6 its drop order holds no
  column index at all.
\<close>

theorem setupDropOrder_even_width:
  "setupDropOrder \<lparr>cols = 6, rows = 6, connect = 4\<rparr> = [5/2, 7/2, 3/2, 9/2, 1/2, 11/2]
   \<and> c_drop_order 6 = [2, 3, 1, 4, 0, 5]"
  by code_simp

section \<open>Dropping a piece: the board and the piece count\<close>

lemma other_simps [simp]: "other 0 = 1" "other (Suc 0) = 0" "other 1 = 0"
  by (simp_all add: other_def)

lemma other_less2: "player < 2 \<Longrightarrow> other player < 2 \<and> other player \<noteq> player"
  by (cases "player = 0") (auto simp: less_2_cases_iff)

lemma scan_col_cases:
  "row < rows g \<Longrightarrow>
   scan_col g col row = rows g \<or>
   (scan_col g col row < rows g \<and> js_nth col (scan_col g col row) = Some none)"
proof (induction g col row rule: scan_col.induct)
  case (1 g col row)
  show ?case
  proof (cases "js_nth col row \<noteq> Some none")
    case True
    note occupied_here = this
    show ?thesis
    proof (cases "Suc row < rows g")
      case True
      with 1 occupied_here show ?thesis by (simp add: scan_col.simps [of g col row])
    next
      case False
      with 1 occupied_here show ?thesis by (simp add: scan_col.simps [of g col row])
    qed
  next
    case False
    with 1 show ?thesis by (simp add: scan_col.simps [of g col row])
  qed
qed

lemma score_loop_frame:
  "board (snd (snd (score_loop g player ls acc))) = board (snd (snd acc)) \<and>
   numberOfPieces (snd (snd (score_loop g player ls acc))) = numberOfPieces (snd (snd acc)) \<and>
   map_s (snd (snd (score_loop g player ls acc))) = map_s (snd (snd acc)) \<and>
   score (snd (snd (score_loop g player ls acc))) = score (snd (snd acc)) \<and>
   tie (snd (snd (score_loop g player ls acc))) = tie (snd (snd acc)) \<and>
   gameOver (snd (snd (score_loop g player ls acc))) = gameOver (snd (snd acc))"
proof (induction ls arbitrary: acc)
  case Nil
  show ?case by simp
next
  case (Cons winIndex rest)
  obtain a b s where acc: "acc = (a, b, s)" by (cases acc)
  show ?case
    unfolding acc score_loop.simps Let_def
    by (simp add: Cons.IH)
qed

lemma updateScore_frame:
  "board (updateScore g player column row s) = board s \<and>
   numberOfPieces (updateScore g player column row s) = numberOfPieces s \<and>
   map_s (updateScore g player column row s) = map_s s"
proof -
  obtain a b s1 where loop: "score_loop g player (map_s s ! column ! row) (0, 0, s) = (a, b, s1)"
    by (cases "score_loop g player (map_s s ! column ! row) (0, 0, s)")
  have "board s1 = board s \<and> numberOfPieces s1 = numberOfPieces s \<and> map_s s1 = map_s s"
    using score_loop_frame [of g player "map_s s ! column ! row" "(0, 0, s)"] loop by simp
  then show ?thesis
    by (simp add: updateScore_def loop Let_def)
qed

lemma dropPiece_fail:
  "fst (dropPiece g player column s) < 0 \<Longrightarrow> dropPiece g player column s = (- 1, s)"
  by (auto simp: dropPiece_def Let_def split: if_splits)

lemma dropPiece_success:
  assumes "1 \<le> rows g" and "fst (dropPiece g player column s) \<ge> 0"
  shows "\<exists>row < rows g. js_nth (board s ! column) row = Some none \<and>
     fst (dropPiece g player column s) = int row \<and>
     board (snd (dropPiece g player column s)) = (board s)[column := (board s ! column)[row := int player]] \<and>
     numberOfPieces (snd (dropPiece g player column s)) = numberOfPieces s + 1 \<and>
     map_s (snd (dropPiece g player column s)) = map_s s \<and>
     snd (dropPiece g player column s) =
       updateScore g player column row
         (s\<lparr>board := (board s)[column := (board s ! column)[row := int player]],
            numberOfPieces := numberOfPieces s + 1\<rparr>)"
proof -
  let ?row = "scan_col g (board s ! column) 0"
  have ne: "?row \<noteq> rows g"
    using assms(2) by (auto simp: dropPiece_def Let_def split: if_splits)
  with scan_col_cases [of 0 g "board s ! column"] assms(1)
  have row: "?row < rows g" "js_nth (board s ! column) ?row = Some none"
    by auto
  show ?thesis
    using ne row by (intro exI [of _ ?row]) (simp add: dropPiece_def Let_def updateScore_frame)
qed

lemma play_invariant:
  assumes "P s"
    and "\<And>s player c. P s \<Longrightarrow> player < 2 \<Longrightarrow> c < cols g \<Longrightarrow> c < length (board s)
           \<Longrightarrow> P (snd (dropPiece g player c s))"
    and "\<forall>(player, column)\<in>set ms. player < 2"
  shows "P (play g ms s)"
  using assms(1,3)
proof (induction ms arbitrary: s)
  case Nil
  then show ?case by simp
next
  case (Cons m ms)
  obtain player column where m: "m = (player, column)" by (cases m)
  from Cons.prems m have p2: "player < 2" and rest: "\<forall>(player, column)\<in>set ms. player < 2"
    by auto
  show ?case
  proof (cases "makeMove g player column s")
    case (Inl e)
    with Cons.IH [OF Cons.prems(1) rest] show ?thesis by (simp add: m)
  next
    case (Inr r)
    obtain row s' where r: "r = (row, s')" by (cases r)
    from Inr r have ok: "nat \<lfloor>column\<rfloor> < cols g" "nat \<lfloor>column\<rfloor> < length (board s)"
      and s': "s' = snd (dropPiece g player (nat \<lfloor>column\<rfloor>) s)"
      by (auto simp: makeMove_def dropPiece_at_def not_le nat_less_iff floor_less_iff split: if_splits)
    have "P s'"
      unfolding s' using Cons.prems(1) p2 ok by (rule assms(2))
    from Cons.IH [OF this rest] show ?thesis by (simp add: m Inr r)
  qed
qed

lemma length_filter_update:
  "r < length xs \<Longrightarrow> \<not> P (xs ! r) \<Longrightarrow> P v \<Longrightarrow>
   length (filter P (xs[r := v])) = Suc (length (filter P xs))"
proof -
  assume r: "r < length xs" and old: "\<not> P (xs ! r)" and new: "P v"
  have "length (filter P (take r xs @ v # drop (Suc r) xs))
      = Suc (length (filter P (take r xs @ xs ! r # drop (Suc r) xs)))"
    using old new by simp
  then show ?thesis
    using r by (simp only: upd_conv_take_nth_drop id_take_nth_drop [symmetric])
qed

lemma sum_list_map_update:
  fixes f :: "'a \<Rightarrow> nat"
  shows "c < length b \<Longrightarrow> f y = Suc (f (b ! c)) \<Longrightarrow>
   sum_list (map f (b[c := y])) = Suc (sum_list (map f b))"
proof -
  assume c: "c < length b" and y: "f y = Suc (f (b ! c))"
  have "sum_list (map f (take c b @ y # drop (Suc c) b))
      = Suc (sum_list (map f (take c b @ b ! c # drop (Suc c) b)))"
    using y by simp
  then show ?thesis
    using c by (simp only: upd_conv_take_nth_drop id_take_nth_drop [symmetric])
qed

lemma occupied_update:
  assumes "c < length b" "r < length (b ! c)" "b ! c ! r = none" "v \<noteq> none"
  shows "occupied (b[c := (b ! c)[r := v]]) = Suc (occupied b)"
  unfolding occupied_def
  using assms by (intro sum_list_map_update) (simp_all add: length_filter_update)

lemma filter_sum_le:
  "\<forall>col\<in>set b. length col = n \<Longrightarrow>
   sum_list (map (\<lambda>col. length (filter P col)) b) \<le> length b * n"
proof (induction b)
  case Nil
  then show ?case by simp
next
  case (Cons col b)
  have "length (filter P col) \<le> n"
    using Cons.prems length_filter_le [of P col] by simp
  moreover have "sum_list (map (\<lambda>col. length (filter P col)) b) \<le> length b * n"
    using Cons by simp
  ultimately show ?case by simp
qed

lemma occupied_le:
  assumes "board_ok g b"
  shows "occupied b \<le> cols g * rows g"
  using assms filter_sum_le [of b "rows g" "\<lambda>v. v \<noteq> none"]
  by (simp add: occupied_def board_ok_def)

lemma board_ok_update:
  assumes "board_ok g b"
  shows "board_ok g (b[c := (b ! c)[r := v]])"
proof (cases "c < length b")
  case True
  then have "length ((b ! c)[r := v]) = rows g"
    using assms by (simp add: board_ok_def)
  moreover have "set (b[c := (b ! c)[r := v]]) \<subseteq> insert ((b ! c)[r := v]) (set b)"
    by (rule set_update_subset_insert)
  ultimately show ?thesis
    using assms by (auto simp: board_ok_def)
next
  case False
  then show ?thesis using assms by (simp add: list_update_beyond)
qed

lemma board_ok_setupBoard: "board_ok g (setupBoard g)"
  by (simp add: board_ok_def setupBoard_def)

lemma occupied_setupBoard: "occupied (setupBoard g) = 0"
  by (simp add: occupied_def setupBoard_def)

lemma pieces_inv_dropPiece:
  assumes "1 \<le> rows g" "pieces_inv g s" "c < length (board s)"
  shows "pieces_inv g (snd (dropPiece g player c s))"
proof (cases "fst (dropPiece g player c s) < 0")
  case True
  then show ?thesis using assms(2) by (simp add: dropPiece_fail)
next
  case False
  then have "fst (dropPiece g player c s) \<ge> 0" by simp
  from dropPiece_success [OF assms(1) this]
  obtain row where row: "row < rows g" "js_nth (board s ! c) row = Some none"
    and b: "board (snd (dropPiece g player c s)) = (board s)[c := (board s ! c)[row := int player]]"
    and n: "numberOfPieces (snd (dropPiece g player c s)) = numberOfPieces s + 1"
    by blast
  from row(2) have cell: "row < length (board s ! c)" "board s ! c ! row = none"
    by (auto simp: js_nth_def split: if_splits)
  have "occupied ((board s)[c := (board s ! c)[row := int player]]) = Suc (occupied (board s))"
    using assms(3) cell by (intro occupied_update) (simp_all add: none_def)
  with assms(2) show ?thesis
    by (simp add: pieces_inv_def b n board_ok_update)
qed

lemma pieces_inv_play:
  assumes "1 \<le> rows g" "\<forall>(player, column)\<in>set ms. player < 2"
  shows "pieces_inv g (play g ms (Connect4Game g))"
proof (rule play_invariant [OF _ _ assms(2)])
  show "pieces_inv g (Connect4Game g)"
    by (simp add: pieces_inv_def Connect4Game_def board_ok_setupBoard occupied_setupBoard)
next
  fix s player c
  assume "pieces_inv g s" "c < length (board s)"
  then show "pieces_inv g (snd (dropPiece g player c s))"
    using assms(1) by (intro pieces_inv_dropPiece)
qed

lemma isTie_play:
  assumes "1 \<le> rows g" "\<forall>(player, column)\<in>set ms. player < 2"
  shows "isTie g (play g ms (Connect4Game g)) \<longleftrightarrow>
     numberOfPieces (play g ms (Connect4Game g)) = int (cols g) * int (rows g)
     \<and> winner (play g ms (Connect4Game g)) = none"
proof -
  let ?s = "play g ms (Connect4Game g)"
  have "pieces_inv g ?s" using assms by (rule pieces_inv_play)
  then have "numberOfPieces ?s \<le> int (cols g) * int (rows g)"
    using occupied_le [of g "board ?s"]
    by (simp add: pieces_inv_def flip: of_nat_mult)
  then show ?thesis by (auto simp: isTie_def)
qed

lemma js_nth_full: "\<forall>row<n. col ! row \<noteq> v \<Longrightarrow> r < n \<Longrightarrow> js_nth col r \<noteq> Some v"
  by (simp add: js_nth_def)

lemma scan_col_full:
  "row < rows g \<Longrightarrow> \<forall>r. row \<le> r \<and> r < rows g \<longrightarrow> js_nth col r \<noteq> Some none
   \<Longrightarrow> scan_col g col row = rows g"
proof (induction g col row rule: scan_col.induct)
  case (1 g col row)
  show ?case
  proof (cases "Suc row < rows g")
    case True
    with 1 have "scan_col g col (Suc row) = rows g" by simp
    with 1 True show ?thesis by (simp add: scan_col.simps [of g col row])
  next
    case False
    with 1 show ?thesis by (simp add: scan_col.simps [of g col row])
  qed
qed

lemma c_scan_full:
  "y < rows g \<Longrightarrow> \<forall>r. y \<le> r \<and> r < rows g \<longrightarrow> js_nth col r \<noteq> Some C4_NONE
   \<Longrightarrow> c_scan g col y = rows g"
proof (induction g col y rule: c_scan.induct)
  case (1 g col y)
  show ?case
  proof (cases "Suc y < rows g")
    case True
    with 1 have "c_scan g col (Suc y) = rows g" by simp
    with 1 True show ?thesis by (simp add: c_scan.simps [of g col y])
  next
    case False
    with 1 show ?thesis by (simp add: c_scan.simps [of g col y])
  qed
qed

lemma dropPiece_full:
  assumes "1 \<le> rows g" and full: "\<forall>row<rows g. board s ! column ! row \<noteq> none"
  shows "dropPiece g player column s = (- 1, s)"
proof -
  have "scan_col g (board s ! column) 0 = rows g"
    using assms by (intro scan_col_full) (auto simp: js_nth_def)
  then show ?thesis
    by (simp add: dropPiece_def)
qed

lemma drop_piece_full:
  assumes "1 \<le> rows g" and full: "\<forall>row<rows g. c_board cs ! column ! row \<noteq> C4_NONE"
  shows "drop_piece g player column cs = (- 1, cs)"
proof -
  have "c_scan g (c_board cs ! column) 0 = rows g"
    using assms by (intro c_scan_full) (auto simp: js_nth_def)
  then show ?thesis
    by (simp add: drop_piece_def)
qed

section \<open>Example games\<close>

lemma play_1x2_full:
  "play game_1x2 [(0, 0), (1, 0)] (Connect4Game game_1x2) =
     \<lparr>numberOfPieces = 2, winner = - 1, tie = True, gameOver = True, board = [[0, 1]],
      stats = [[0], [0]], map_s = [[[0], [0]]], score = [0, 0]\<rparr>"
  by code_simp

lemma c_play_1x2_full:
  "c_play game_1x2 [(0, 0), (1, 0)] (c4_new_game game_1x2) =
     \<lparr>c_board = [[0, 1]], score_array = [[0], [0]], c_score = [0, 0], c_winner = 2,
      num_of_pieces = 2\<rparr>"
  by code_simp

lemma play_1x1:
  "play game_1x1 [(0, 0)] (Connect4Game game_1x1) =
     \<lparr>numberOfPieces = 1, winner = 0, tie = False, gameOver = True, board = [[0]],
      stats = [[2, 2, 2, 2], [0, 0, 0, 0]], map_s = [[[0, 1, 2, 3]]], score = [8, 0]\<rparr>"
  by code_simp

lemma c_play_1x1:
  "c_play game_1x1 [(0, 0)] (c4_new_game game_1x1) =
     \<lparr>c_board = [[0]], score_array = [[2, 2, 2, 2], [0, 0, 0, 0]], c_score = [8, 0], c_winner = 0,
      num_of_pieces = 1\<rparr>"
  by code_simp

section \<open>Full columns and ties\<close>

text \<open>
  \<^bold>\<open>C5.\<close> A drop into a full column (every row of the column occupied) returns the
  failure value \<open>-1\<close> and the state it was given: board, scores, potentials, winner and
  piece count are as before. This holds in every state of a game with at least one row, in
  particular in every reachable one, for \<open>dropPiece\<close> of the JavaScript port and for
  \<open>drop_piece\<close> of the C original.
\<close>

theorem drop_into_full_column_fails:
  assumes "1 \<le> rows g"
  shows "((\<forall>row<rows g. board s ! column ! row \<noteq> none)
            \<longrightarrow> dropPiece g player column s = (- 1, s))
       \<and> ((\<forall>row<rows g. c_board cs ! column ! row \<noteq> C4_NONE)
            \<longrightarrow> drop_piece g player column cs = (- 1, cs))"
  using assms by (simp add: dropPiece_full drop_piece_full)

theorem drop_into_full_column_fails_witness:
  "dropPiece game_1x2 0 0 (play game_1x2 [(0, 0), (1, 0)] (Connect4Game game_1x2))
       = (- 1, play game_1x2 [(0, 0), (1, 0)] (Connect4Game game_1x2))
   \<and> board (play game_1x2 [(0, 0), (1, 0)] (Connect4Game game_1x2)) = [[0, 1]]
   \<and> drop_piece game_1x2 0 0 (c_play game_1x2 [(0, 0), (1, 0)] (c4_new_game game_1x2))
       = (- 1, c_play game_1x2 [(0, 0), (1, 0)] (c4_new_game game_1x2))
   \<and> c_board (c_play game_1x2 [(0, 0), (1, 0)] (c4_new_game game_1x2)) = [[0, 1]]"
proof -
  have r: "1 \<le> rows game_1x2" by (simp add: game_1x2_def)
  have js: "\<forall>row<rows game_1x2.
      board (play game_1x2 [(0, 0), (1, 0)] (Connect4Game game_1x2)) ! 0 ! row \<noteq> none"
    unfolding play_1x2_full by (simp add: game_1x2_def none_def less_Suc_eq numeral_2_eq_2)
  have c: "\<forall>row<rows game_1x2.
      c_board (c_play game_1x2 [(0, 0), (1, 0)] (c4_new_game game_1x2)) ! 0 ! row \<noteq> C4_NONE"
    unfolding c_play_1x2_full by (simp add: game_1x2_def C4_NONE_def less_Suc_eq numeral_2_eq_2)
  have b: "board (play game_1x2 [(0, 0), (1, 0)] (Connect4Game game_1x2)) = [[0, 1]]"
    unfolding play_1x2_full by simp
  have cb: "c_board (c_play game_1x2 [(0, 0), (1, 0)] (c4_new_game game_1x2)) = [[0, 1]]"
    unfolding c_play_1x2_full by simp
  from drop_into_full_column_fails [OF r] js c b cb show ?thesis by blast
qed

text \<open>
  \<^bold>\<open>C7.\<close> The claim: \<open>isTie\<close> is true exactly when the piece count is \<open>W\<cdot>H\<close> and no winner
  is recorded. The C original's \<open>c4_is_tie\<close> does not look at the winner: on the 1 by 1
  board of connect-1, after the only possible drop, player 0 has won and \<open>c4_is_tie\<close> is true.
\<close>

theorem c4_is_tie_with_winner:
  "\<not> (c4_is_tie game_1x1 (c_play game_1x1 [(0, 0)] (c4_new_game game_1x1))
       \<longleftrightarrow> num_of_pieces (c_play game_1x1 [(0, 0)] (c4_new_game game_1x1))
             = int (cols game_1x1) * int (rows game_1x1)
           \<and> c_winner (c_play game_1x1 [(0, 0)] (c4_new_game game_1x1)) = C4_NONE)"
  unfolding c_play_1x1 by (simp add: c4_is_tie_def game_1x1_def C4_NONE_def)

text \<open>
  Amended: in every reachable state of the JavaScript game, \<open>isTie\<close> is true exactly when
  the piece count is \<open>W\<cdot>H\<close> and no winner is recorded; the C original's \<open>c4_is_tie\<close> is
  true exactly when the piece count is \<open>W\<cdot>H\<close>, with or without a winner.
\<close>

theorem isTie_iff_full_and_no_winner:
  assumes "1 \<le> rows g" "\<forall>(player, column)\<in>set ms. player < 2"
  shows "(isTie g (play g ms (Connect4Game g)) \<longleftrightarrow>
            numberOfPieces (play g ms (Connect4Game g)) = int (cols g) * int (rows g)
            \<and> winner (play g ms (Connect4Game g)) = none)
       \<and> (c4_is_tie g (c_play g cms (c4_new_game g)) \<longleftrightarrow>
            num_of_pieces (c_play g cms (c4_new_game g)) = int (cols g) * int (rows g))"
  using isTie_play [OF assms] by (simp add: c4_is_tie_def)

theorem isTie_iff_full_and_no_winner_witness:
  "isTie game_1x2 (play game_1x2 [(0, 0), (1, 0)] (Connect4Game game_1x2))
   \<and> numberOfPieces (play game_1x2 [(0, 0), (1, 0)] (Connect4Game game_1x2)) = 2
   \<and> winner (play game_1x2 [(0, 0), (1, 0)] (Connect4Game game_1x2)) = none
   \<and> c4_is_tie game_1x2 (c_play game_1x2 [(0, 0), (1, 0)] (c4_new_game game_1x2))"
proof -
  have r: "1 \<le> rows game_1x2" by (simp add: game_1x2_def)
  have p: "\<forall>(player, column)\<in>set [(0, 0), (1, 0 :: rat)]. player < (2::nat)" by simp
  have n: "numberOfPieces (play game_1x2 [(0, 0), (1, 0)] (Connect4Game game_1x2)) = 2"
    and w: "winner (play game_1x2 [(0, 0), (1, 0)] (Connect4Game game_1x2)) = none"
    unfolding play_1x2_full by (simp_all add: none_def)
  have cn: "num_of_pieces (c_play game_1x2 [(0, 0), (1, 0)] (c4_new_game game_1x2)) = 2"
    unfolding c_play_1x2_full by simp
  have d: "int (cols game_1x2) * int (rows game_1x2) = 2" by (simp add: game_1x2_def)
  from isTie_iff_full_and_no_winner [OF r p, of "[(0, 0), (1, 0)]"] n w cn d
  show ?thesis by simp
qed

section \<open>The map of lines\<close>

lemma push_win_length [simp]: "length (push_win m x y w) = length m"
  by (simp add: push_win_def)

lemma push_win_length_nth [simp]: "length (push_win m x y w ! x') = length (m ! x')"
  by (cases "x < length m"; cases "x' = x") (simp_all add: push_win_def list_update_beyond)

lemma push_win_nth:
  "x < length m \<Longrightarrow> y < length (m ! x) \<Longrightarrow>
   push_win m x y w ! x' ! y' = (if x' = x \<and> y' = y then m ! x ! y @ [w] else m ! x' ! y')"
  by (auto simp: push_win_def nth_list_update)

lemma fold_push_win:
  assumes "\<forall>k\<in>set ks. fst (cell k) < length m \<and> snd (cell k) < length (m ! fst (cell k))"
  shows "length (fold (\<lambda>k m. push_win m (fst (cell k)) (snd (cell k)) w) ks m) = length m
    \<and> (\<forall>x'. length (fold (\<lambda>k m. push_win m (fst (cell k)) (snd (cell k)) w) ks m ! x') = length (m ! x'))
    \<and> (\<forall>x' y'. fold (\<lambda>k m. push_win m (fst (cell k)) (snd (cell k)) w) ks m ! x' ! y'
          = m ! x' ! y' @ replicate (length (filter (\<lambda>k. cell k = (x', y')) ks)) w)"
  using assms
proof (induction ks arbitrary: m)
  case Nil
  show ?case by simp
next
  case (Cons k ks)
  let ?m1 = "push_win m (fst (cell k)) (snd (cell k)) w"
  have rng: "fst (cell k) < length m" "snd (cell k) < length (m ! fst (cell k))"
    using Cons.prems by simp_all
  have "\<forall>k\<in>set ks. fst (cell k) < length ?m1 \<and> snd (cell k) < length (?m1 ! fst (cell k))"
    using Cons.prems by simp
  note IH = Cons.IH [OF this]
  have nth1: "?m1 ! x' ! y' = m ! x' ! y' @ (if cell k = (x', y') then [w] else [])" for x' y'
    using rng by (cases "cell k") (auto simp: push_win_nth)
  show ?case
    using IH by (auto simp: nth1 replicate_app_Cons_same)
qed

lemma filter_inj_length:
  assumes "distinct ks" "inj_on cell (set ks)"
  shows "length (filter (\<lambda>k. cell k = c) ks) = (if c \<in> cell ` set ks then 1 else 0)"
  using assms
proof (induction ks)
  case Nil
  show ?case by simp
next
  case (Cons k ks)
  then have IH: "length (filter (\<lambda>k. cell k = c) ks) = (if c \<in> cell ` set ks then 1 else 0)"
    by simp
  have "cell k \<notin> cell ` set ks"
    using Cons.prems by (auto simp: inj_on_def)
  then show ?case
    using IH by auto
qed

lemma cells_of_empty: "\<forall>x<length m. \<forall>y<length (m ! x). l \<notin> set (m ! x ! y) \<Longrightarrow> cells_of m l = {}"
  by (auto simp: cells_of_def)

lemma finite_cells_of: "finite (cells_of m l)"
proof -
  have "cells_of m l \<subseteq> (\<Union>x\<in>{..<length m}. {x} \<times> {..<length (m ! x)})"
    by (auto simp: cells_of_def)
  moreover have "finite (\<Union>x\<in>{..<length m}. {x} \<times> {..<length (m ! x)})"
    by simp
  ultimately show ?thesis by (rule finite_subset)
qed

lemma add_line_ok:
  assumes ok: "map_ok g mw" and good: "good_cell g cell"
  shows "map_ok g (add_line cell (connect g) mw)"
proof -
  obtain m w where mw: "mw = (m, w)" by (cases mw)
  let ?n = "connect g"
  let ?m' = "fold (\<lambda>k m. push_win m (fst (cell k)) (snd (cell k)) w) [0..<?n] m"
  have len: "length m = cols g" and len2: "\<And>x. x < cols g \<Longrightarrow> length (m ! x) = rows g"
    and dist: "\<And>x y. x < cols g \<Longrightarrow> y < rows g \<Longrightarrow> distinct (m ! x ! y)"
    and ids: "\<And>x y l. x < cols g \<Longrightarrow> y < rows g \<Longrightarrow> l \<in> set (m ! x ! y) \<Longrightarrow> l < w"
    and card_le: "\<And>l. card (cells_of m l) \<le> ?n"
    using ok by (auto simp: map_ok_def mw)
  have rng: "\<And>k. k < ?n \<Longrightarrow> fst (cell k) < cols g \<and> snd (cell k) < rows g"
    and inj: "inj_on cell {..<?n}"
    using good by (auto simp: good_cell_def)
  have pre: "\<forall>k\<in>set [0..<?n]. fst (cell k) < length m \<and> snd (cell k) < length (m ! fst (cell k))"
    using rng len len2 by auto
  from fold_push_win [OF pre, of w]
  have len': "length ?m' = length m" and len2': "\<And>x'. length (?m' ! x') = length (m ! x')"
    and nth': "\<And>x' y'. ?m' ! x' ! y'
        = m ! x' ! y' @ replicate (length (filter (\<lambda>k. cell k = (x', y')) [0..<?n])) w"
    by auto
  have cnt: "length (filter (\<lambda>k. cell k = c) [0..<?n]) = (if c \<in> cell ` {..<?n} then 1 else 0)" for c
    using filter_inj_length [of "[0..<?n]" cell c] inj by (simp add: atLeast0LessThan)
  have nth'': "?m' ! x' ! y' = m ! x' ! y' @ (if (x', y') \<in> cell ` {..<?n} then [w] else [])" for x' y'
    by (simp add: nth' cnt)
  have fresh: "w \<notin> set (m ! x ! y)" if "x < cols g" "y < rows g" for x y
    using ids [OF that] by auto
  have cells_other: "cells_of ?m' l = cells_of m l" if "l \<noteq> w" for l
    using that by (auto simp: cells_of_def len' len2' nth'')
  have "cells_of m w = {}"
    using fresh len len2 by (intro cells_of_empty) auto
  then have cells_w: "cells_of ?m' w \<subseteq> cell ` {..<?n}"
    by (auto simp: cells_of_def len' len2' nth'' split: if_splits)
  have "card (cells_of ?m' w) \<le> card (cell ` {..<?n})"
    using cells_w by (intro card_mono) simp_all
  also have "\<dots> \<le> ?n"
    using card_image_le [of "{..<?n}" cell] by simp
  finally have card_w: "card (cells_of ?m' w) \<le> ?n" .
  have card': "card (cells_of ?m' l) \<le> ?n" for l
    by (cases "l = w") (simp_all add: card_w cells_other card_le)
  have dist': "distinct (?m' ! x ! y)" if "x < cols g" "y < rows g" for x y
    using dist [OF that] fresh [OF that] by (simp add: nth'')
  have ids': "l < Suc w" if "x < cols g" "y < rows g" "l \<in> set (?m' ! x ! y)" for x y l
    using that ids [of x y l] by (auto simp: nth'' split: if_splits)
  show ?thesis
    unfolding map_ok_def mw add_line_def
    using len len2 len' len2' dist' ids' card' by auto
qed

lemma fold_map_ok:
  assumes "\<And>j mw. j \<in> set js \<Longrightarrow> map_ok g mw \<Longrightarrow> map_ok g (f j mw)" "map_ok g mw"
  shows "map_ok g (fold f js mw)"
  using assms by (induction js arbitrary: mw) simp_all

lemma span_bound: "j < span c n \<Longrightarrow> k < n \<Longrightarrow> j + k < c"
  by (simp add: span_def nat_less_iff)

lemma good_horizontal: "i < rows g \<Longrightarrow> j < span (cols g) (connect g) \<Longrightarrow> good_cell g (\<lambda>k. (j + k, i))"
  by (auto simp: good_cell_def span_bound inj_on_def)

lemma good_vertical: "i < cols g \<Longrightarrow> j < span (rows g) (connect g) \<Longrightarrow> good_cell g (\<lambda>k. (i, j + k))"
  by (auto simp: good_cell_def span_bound inj_on_def)

lemma good_forward:
  "i < span (rows g) (connect g) \<Longrightarrow> j < span (cols g) (connect g) \<Longrightarrow> good_cell g (\<lambda>k. (j + k, i + k))"
  by (auto simp: good_cell_def span_bound inj_on_def)

lemma good_backward:
  "i < span (rows g) (connect g) \<Longrightarrow> j < cols g \<Longrightarrow> good_cell g (\<lambda>k. (j - k, i + k))"
  by (auto simp: good_cell_def span_bound inj_on_def)

lemma map_ok_horizontal: "map_ok g mw \<Longrightarrow> map_ok g (horizontal g mw)"
  unfolding horizontal_def
  by (intro fold_map_ok add_line_ok good_horizontal) auto

lemma map_ok_vertical: "map_ok g mw \<Longrightarrow> map_ok g (vertical g mw)"
  unfolding vertical_def
  by (intro fold_map_ok add_line_ok good_vertical) auto

lemma map_ok_forward: "map_ok g mw \<Longrightarrow> map_ok g (forward_diagonal g mw)"
  unfolding forward_diagonal_def
  by (intro fold_map_ok add_line_ok good_forward) auto

lemma map_ok_backward: "map_ok g mw \<Longrightarrow> map_ok g (backward_diagonal g mw)"
  unfolding backward_diagonal_def
  by (intro fold_map_ok add_line_ok good_backward) auto

lemma map_ok_empty: "map_ok g (replicate (cols g) (replicate (rows g) []), 0)"
  by (simp add: map_ok_def cells_of_empty)

lemma map_ok_setupMap: "map_ok g (setupMap g)"
  unfolding setupMap_def
  by (intro map_ok_backward map_ok_forward map_ok_vertical map_ok_horizontal map_ok_empty)

section \<open>The score loop and the potentials\<close>

lemma js_shl_double: "0 \<le> v \<Longrightarrow> v < 2 ^ 30 \<Longrightarrow> js_shl v (Suc 0) = 2 * v"
proof -
  assume v: "0 \<le> v" "v < 2 ^ 30"
  have w: "(word_of_int v :: 32 word) * 2 = word_of_int (2 * v)"
    by (simp add: mult.commute)
  have "js_shl v (Suc 0) = sint ((word_of_int v :: 32 word) * 2)"
    by (simp add: js_shl_def push_bit_eq_mult)
  also have "\<dots> = signed_take_bit 31 (2 * v)"
    by (simp only: w sint_sbintrunc') simp
  also have "\<dots> = 2 * v"
    using v by (intro signed_take_bit_int_eq_self) simp_all
  finally show ?thesis .
qed

lemma score_loop_Cons:
  "score_loop g player (l # rest) acc = score_loop g player rest (score_step g player l acc)"
  by (cases acc) (simp add: score_step_def Let_def)

lemma score_step_facts:
  assumes "player < 2" "length (stats s) = 2"
  shows "fst (score_step g player l (a, b, s)) = a + stats s ! player ! l"
    and "fst (snd (score_step g player l (a, b, s))) = b + stats s ! other player ! l"
    and "length (stats (snd (snd (score_step g player l (a, b, s))))) = 2"
    and "stats (snd (snd (score_step g player l (a, b, s)))) ! player
          = (stats s ! player)[l := js_shl (stats s ! player ! l) 1]"
    and "stats (snd (snd (score_step g player l (a, b, s)))) ! other player
          = (stats s ! other player)[l := 0]"
proof -
  from other_less2 [OF assms(1)] have o: "other player < 2" "other player \<noteq> player" by simp_all
  show "fst (score_step g player l (a, b, s)) = a + stats s ! player ! l"
    by (simp add: score_step_def Let_def)
  show "fst (snd (score_step g player l (a, b, s))) = b + stats s ! other player ! l"
    by (simp add: score_step_def Let_def)
  show "length (stats (snd (snd (score_step g player l (a, b, s))))) = 2"
    using assms by (simp add: score_step_def Let_def)
  show "stats (snd (snd (score_step g player l (a, b, s)))) ! player
          = (stats s ! player)[l := js_shl (stats s ! player ! l) 1]"
    using assms o by (simp add: score_step_def Let_def)
  show "stats (snd (snd (score_step g player l (a, b, s)))) ! other player
          = (stats s ! other player)[l := 0]"
    using assms o by (simp add: score_step_def Let_def)
qed

lemma sum_list_update_int:
  fixes xs :: "int list"
  shows "l < length xs \<Longrightarrow> sum_list (xs[l := v]) = sum_list xs - xs ! l + v"
proof -
  assume l: "l < length xs"
  have "sum_list (take l xs @ v # drop (Suc l) xs)
      = sum_list (take l xs @ xs ! l # drop (Suc l) xs) - xs ! l + v"
    by simp
  then show ?thesis
    using l by (simp only: upd_conv_take_nth_drop id_take_nth_drop [symmetric])
qed

text \<open>The effect of the whole loop.\<close>

lemma score_loop_effect:
  assumes "player < 2" "length (stats s) = 2"
    and "length (stats s ! player) = n" "length (stats s ! other player) = n"
    and "distinct ls" "\<forall>l\<in>set ls. l < n"
    and "\<forall>l\<in>set ls. 0 \<le> stats s ! player ! l \<and> stats s ! player ! l < 2 ^ 30"
    and "\<forall>l\<in>set ls. 0 \<le> stats s ! other player ! l"
  shows "length (stats (snd (snd (score_loop g player ls (a, b, s))))) = 2
    \<and> a \<le> fst (score_loop g player ls (a, b, s))
    \<and> b \<le> fst (snd (score_loop g player ls (a, b, s)))
    \<and> length (stats (snd (snd (score_loop g player ls (a, b, s)))) ! player) = n
    \<and> length (stats (snd (snd (score_loop g player ls (a, b, s)))) ! other player) = n
    \<and> (\<forall>l<n. stats (snd (snd (score_loop g player ls (a, b, s)))) ! player ! l
          = (if l \<in> set ls then 2 * stats s ! player ! l else stats s ! player ! l))
    \<and> (\<forall>l<n. stats (snd (snd (score_loop g player ls (a, b, s)))) ! other player ! l
          = (if l \<in> set ls then 0 else stats s ! other player ! l))
    \<and> sum_list (stats (snd (snd (score_loop g player ls (a, b, s)))) ! player)
          - fst (score_loop g player ls (a, b, s)) = sum_list (stats s ! player) - a
    \<and> sum_list (stats (snd (snd (score_loop g player ls (a, b, s)))) ! other player)
          + fst (snd (score_loop g player ls (a, b, s))) = sum_list (stats s ! other player) + b"
  using assms(2-)
proof (induction ls arbitrary: a b s)
  case Nil
  then show ?case by simp
next
  case (Cons l ls)
  let ?acc = "score_step g player l (a, b, s)"
  obtain a1 b1 s1 where acc: "?acc = (a1, b1, s1)" by (cases ?acc)
  note f = score_step_facts [OF assms(1) Cons.prems(1), of g l a b]
  have a1: "a1 = a + stats s ! player ! l" and b1: "b1 = b + stats s ! other player ! l"
    and len1: "length (stats s1) = 2"
    and p1: "stats s1 ! player = (stats s ! player)[l := js_shl (stats s ! player ! l) 1]"
    and o1: "stats s1 ! other player = (stats s ! other player)[l := 0]"
    using f acc by simp_all
  have l: "l < n" "l \<notin> set ls" "0 \<le> stats s ! player ! l" "stats s ! player ! l < 2 ^ 30"
    using Cons.prems by simp_all
  have dbl: "js_shl (stats s ! player ! l) (Suc 0) = 2 * stats s ! player ! l"
    using l by (intro js_shl_double)
  have pre: "length (stats s1 ! player) = n" "length (stats s1 ! other player) = n"
    "distinct ls" "\<forall>l\<in>set ls. l < n"
    "\<forall>l'\<in>set ls. 0 \<le> stats s1 ! player ! l' \<and> stats s1 ! player ! l' < 2 ^ 30"
    "\<forall>l'\<in>set ls. 0 \<le> stats s1 ! other player ! l'"
    using Cons.prems l by (auto simp: p1 o1 nth_list_update)
  have mono: "a \<le> a1" "b \<le> b1"
    using Cons.prems l by (simp_all add: a1 b1)
  note IH = Cons.IH [OF len1 pre, of a1 b1]
  have sp: "sum_list (stats s1 ! player) - a1 = sum_list (stats s ! player) - a"
    using l Cons.prems(2) by (simp add: p1 a1 dbl sum_list_update_int)
  have so: "sum_list (stats s1 ! other player) + b1 = sum_list (stats s ! other player) + b"
    using l Cons.prems(3) by (simp add: o1 b1 sum_list_update_int)
  have np: "stats s1 ! player ! l' = (if l' = l then 2 * stats s ! player ! l else stats s ! player ! l')"
    if "l' < n" for l'
    using that Cons.prems(2) by (simp add: p1 dbl nth_list_update)
  have no: "stats s1 ! other player ! l' = (if l' = l then 0 else stats s ! other player ! l')"
    if "l' < n" for l'
    using that Cons.prems(3) by (simp add: o1 nth_list_update)
  show ?case
    unfolding score_loop_Cons acc
    using IH sp so np no l mono by auto
qed

lemma occ_update:
  assumes "c < length b" "r < length (b ! c)" "b ! c ! r = none" "v \<noteq> none"
  shows "occ m (b[c := (b ! c)[r := v]]) l = (if (c, r) \<in> cells_of m l then Suc (occ m b l) else occ m b l)"
proof -
  let ?b' = "b[c := (b ! c)[r := v]]"
  have cell: "?b' ! c ! r = v"
    using assms by simp
  have other: "?b' ! x ! y = b ! x ! y" if "(x, y) \<noteq> (c, r)" for x y
    using that assms(1) by (cases "x = c") (auto simp: nth_list_update)
  have iff: "?b' ! x ! y \<noteq> none \<longleftrightarrow> b ! x ! y \<noteq> none \<or> (x, y) = (c, r)" for x y
  proof (cases "(x, y) = (c, r)")
    case True
    then show ?thesis using cell assms(4) by simp
  next
    case False
    from other [OF False] False show ?thesis by auto
  qed
  have split: "{(x, y). (x, y) \<in> cells_of m l \<and> ?b' ! x ! y \<noteq> none}
      = {(x, y). (x, y) \<in> cells_of m l \<and> b ! x ! y \<noteq> none} \<union> (if (c, r) \<in> cells_of m l then {(c, r)} else {})"
    unfolding iff by auto
  have fin: "finite {(x, y). (x, y) \<in> cells_of m l \<and> b ! x ! y \<noteq> none}"
    by (rule finite_subset [OF _ finite_cells_of [of m l]]) auto
  have notin: "(c, r) \<notin> {(x, y). (x, y) \<in> cells_of m l \<and> b ! x ! y \<noteq> none}"
    using assms(3) by simp
  show ?thesis
    unfolding occ_def split using fin notin by simp
qed

lemma occ_le: "occ m b l \<le> card (cells_of m l)"
  unfolding occ_def by (intro card_mono finite_cells_of) auto

lemma occ_less:
  assumes "(c, r) \<in> cells_of m l" "b ! c ! r = none"
  shows "occ m b l < card (cells_of m l)"
proof -
  have "{(x, y). (x, y) \<in> cells_of m l \<and> b ! x ! y \<noteq> none} \<subset> cells_of m l"
    using assms by auto
  then show ?thesis
    unfolding occ_def by (intro psubset_card_mono finite_cells_of)
qed

lemma updateScore_effect:
  assumes "player < 2" "length (stats s) = 2" "length (score s) = 2"
    and "length (stats s ! player) = n" "length (stats s ! other player) = n"
    and "distinct (map_s s ! column ! row)" "\<forall>l\<in>set (map_s s ! column ! row). l < n"
    and "\<forall>l\<in>set (map_s s ! column ! row). 0 \<le> stats s ! player ! l \<and> stats s ! player ! l < 2 ^ 30"
    and "\<forall>l\<in>set (map_s s ! column ! row). 0 \<le> stats s ! other player ! l"
  shows "length (stats (updateScore g player column row s)) = 2
    \<and> length (score (updateScore g player column row s)) = 2
    \<and> length (stats (updateScore g player column row s) ! player) = n
    \<and> length (stats (updateScore g player column row s) ! other player) = n
    \<and> (\<forall>l<n. stats (updateScore g player column row s) ! player ! l
          = (if l \<in> set (map_s s ! column ! row) then 2 * stats s ! player ! l else stats s ! player ! l))
    \<and> (\<forall>l<n. stats (updateScore g player column row s) ! other player ! l
          = (if l \<in> set (map_s s ! column ! row) then 0 else stats s ! other player ! l))
    \<and> score (updateScore g player column row s) ! player
          - sum_list (stats (updateScore g player column row s) ! player)
        = score s ! player - sum_list (stats s ! player)
    \<and> score (updateScore g player column row s) ! other player
          - sum_list (stats (updateScore g player column row s) ! other player)
        = score s ! other player - sum_list (stats s ! other player)
    \<and> score s ! player \<le> score (updateScore g player column row s) ! player
    \<and> score (updateScore g player column row s) ! other player \<le> score s ! other player"
proof -
  let ?ls = "map_s s ! column ! row"
  obtain a b s1 where loop: "score_loop g player ?ls (0, 0, s) = (a, b, s1)"
    by (cases "score_loop g player ?ls (0, 0, s)")
  from other_less2 [OF assms(1)] have o: "other player < 2" "other player \<noteq> player" by simp_all
  have sc1: "score s1 = score s"
    using score_loop_frame [of g player ?ls "(0, 0, s)"] loop by simp
  note eff = score_loop_effect [OF assms(1,2,4,5,6,7,8,9), of g 0 0]
  have st: "stats (updateScore g player column row s) = stats s1"
    by (simp add: updateScore_def loop Let_def)
  have sc: "score (updateScore g player column row s)
      = ((score s)[player := score s ! player + a])[other player := (score s)[player := score s ! player + a] ! other player - b]"
    by (simp add: updateScore_def loop Let_def sc1)
  have scp: "score (updateScore g player column row s) ! player = score s ! player + a"
    and sco: "score (updateScore g player column row s) ! other player = score s ! other player - b"
    and scl: "length (score (updateScore g player column row s)) = 2"
    using assms(1,3) o by (simp_all add: sc)
  show ?thesis
    using eff unfolding st scp sco scl loop by simp
qed

lemma cells_of_iff:
  "(x, y) \<in> cells_of m l \<longleftrightarrow> x < length m \<and> y < length (m ! x) \<and> l \<in> set (m ! x ! y)"
  by (simp add: cells_of_def)

lemma dropPiece_effect:
  assumes "1 \<le> rows g" "connect g \<le> 30" "potentials_ok g s" "player < 2" "c < cols g"
    and "fst (dropPiece g player c s) \<ge> 0"
  shows "\<exists>row<rows g.
      board s ! c ! row = none
    \<and> board (snd (dropPiece g player c s)) = (board s)[c := (board s ! c)[row := int player]]
    \<and> numberOfPieces (snd (dropPiece g player c s)) = numberOfPieces s + 1
    \<and> map_s (snd (dropPiece g player c s)) = map_s s
    \<and> length (stats (snd (dropPiece g player c s))) = 2
    \<and> length (score (snd (dropPiece g player c s))) = 2
    \<and> length (stats (snd (dropPiece g player c s)) ! player) = snd (setupMap g)
    \<and> length (stats (snd (dropPiece g player c s)) ! other player) = snd (setupMap g)
    \<and> (\<forall>l < snd (setupMap g). stats (snd (dropPiece g player c s)) ! player ! l
          = (if l \<in> set (map_s s ! c ! row) then 2 * stats s ! player ! l else stats s ! player ! l))
    \<and> (\<forall>l < snd (setupMap g). stats (snd (dropPiece g player c s)) ! other player ! l
          = (if l \<in> set (map_s s ! c ! row) then 0 else stats s ! other player ! l))
    \<and> score (snd (dropPiece g player c s)) ! player
          - sum_list (stats (snd (dropPiece g player c s)) ! player)
        = score s ! player - sum_list (stats s ! player)
    \<and> score (snd (dropPiece g player c s)) ! other player
          - sum_list (stats (snd (dropPiece g player c s)) ! other player)
        = score s ! other player - sum_list (stats s ! other player)
    \<and> score s ! player \<le> score (snd (dropPiece g player c s)) ! player
    \<and> score (snd (dropPiece g player c s)) ! other player \<le> score s ! other player"
proof -
  let ?m = "fst (setupMap g)" and ?w = "snd (setupMap g)"
  from other_less2 [OF assms(4)] have o: "other player < 2" "other player \<noteq> player" by simp_all
  from assms(3) have bok: "board_ok g (board s)" and ms: "map_s s = ?m"
    and lens: "length (stats s) = 2" "length (score s) = 2"
      "length (stats s ! player) = ?w" "length (stats s ! other player) = ?w"
    and bnd: "\<And>p l. p < 2 \<Longrightarrow> l < ?w \<Longrightarrow> 0 \<le> stats s ! p ! l \<and> stats s ! p ! l \<le> 2 ^ occ ?m (board s) l"
    using assms(4) o by (auto simp: potentials_ok_def)
  have mok: "map_ok g (?m, ?w)"
    using map_ok_setupMap [of g] by simp
  from dropPiece_success [OF assms(1,6)]
  obtain row where row: "row < rows g" "js_nth (board s ! c) row = Some none"
    and b': "board (snd (dropPiece g player c s)) = (board s)[c := (board s ! c)[row := int player]]"
    and n': "numberOfPieces (snd (dropPiece g player c s)) = numberOfPieces s + 1"
    and m': "map_s (snd (dropPiece g player c s)) = map_s s"
    and s': "snd (dropPiece g player c s) =
       updateScore g player c row
         (s\<lparr>board := (board s)[c := (board s ! c)[row := int player]],
            numberOfPieces := numberOfPieces s + 1\<rparr>)"
    by blast
  let ?s0 = "s\<lparr>board := (board s)[c := (board s ! c)[row := int player]],
            numberOfPieces := numberOfPieces s + 1\<rparr>"
  from row(2) have empty: "board s ! c ! row = none"
    by (auto simp: js_nth_def split: if_splits)
  have mshape: "length ?m = cols g" "length (?m ! c) = rows g"
    and dist: "distinct (?m ! c ! row)"
    and ids: "\<And>l. l \<in> set (?m ! c ! row) \<Longrightarrow> l < ?w"
    and card_le: "\<And>l. card (cells_of ?m l) \<le> connect g"
    using mok assms(5) row(1) by (auto simp: map_ok_def)
  have small: "0 \<le> stats s ! player ! l \<and> stats s ! player ! l < 2 ^ 30"
    and nonneg: "0 \<le> stats s ! other player ! l"
    if l: "l \<in> set (?m ! c ! row)" for l
  proof -
    have "(c, row) \<in> cells_of ?m l"
      using l assms(5) row(1) mshape by (simp add: cells_of_iff)
    from occ_less [OF this empty] card_le [of l] assms(2)
    have "occ ?m (board s) l \<le> 29" by simp
    then have "(2::int) ^ occ ?m (board s) l \<le> 2 ^ 29"
      by (intro power_increasing) simp_all
    with bnd [OF assms(4) ids [OF l]]
    show "0 \<le> stats s ! player ! l \<and> stats s ! player ! l < 2 ^ 30" by simp
    from bnd [OF o(1) ids [OF l]] show "0 \<le> stats s ! other player ! l" by simp
  qed
  have eff: "length (stats (updateScore g player c row ?s0)) = 2
    \<and> length (score (updateScore g player c row ?s0)) = 2
    \<and> length (stats (updateScore g player c row ?s0) ! player) = ?w
    \<and> length (stats (updateScore g player c row ?s0) ! other player) = ?w
    \<and> (\<forall>l<?w. stats (updateScore g player c row ?s0) ! player ! l
          = (if l \<in> set (map_s ?s0 ! c ! row) then 2 * stats ?s0 ! player ! l else stats ?s0 ! player ! l))
    \<and> (\<forall>l<?w. stats (updateScore g player c row ?s0) ! other player ! l
          = (if l \<in> set (map_s ?s0 ! c ! row) then 0 else stats ?s0 ! other player ! l))
    \<and> score (updateScore g player c row ?s0) ! player
          - sum_list (stats (updateScore g player c row ?s0) ! player)
        = score ?s0 ! player - sum_list (stats ?s0 ! player)
    \<and> score (updateScore g player c row ?s0) ! other player
          - sum_list (stats (updateScore g player c row ?s0) ! other player)
        = score ?s0 ! other player - sum_list (stats ?s0 ! other player)
    \<and> score ?s0 ! player \<le> score (updateScore g player c row ?s0) ! player
    \<and> score (updateScore g player c row ?s0) ! other player \<le> score ?s0 ! other player"
    using lens dist ids small nonneg
    by (intro updateScore_effect [OF assms(4)]) (simp_all add: ms)
  show ?thesis
    using row(1) empty b' n' m' eff unfolding s' [symmetric]
    by (intro exI [of _ row]) simp
qed

lemma two_players: "player < 2 \<Longrightarrow> p < 2 \<Longrightarrow> p = player \<or> p = other player"
  by (cases "player = 0"; cases "p = 0") (auto simp: less_2_cases_iff)

lemma potentials_ok_dropPiece:
  assumes "1 \<le> rows g" "connect g \<le> 30" "potentials_ok g s" "player < 2" "c < cols g"
  shows "potentials_ok g (snd (dropPiece g player c s))"
proof (cases "fst (dropPiece g player c s) < 0")
  case True
  then show ?thesis using assms(3) by (simp add: dropPiece_fail)
next
  case False
  then have ok: "fst (dropPiece g player c s) \<ge> 0" by simp
  let ?s' = "snd (dropPiece g player c s)"
  let ?m = "fst (setupMap g)" and ?w = "snd (setupMap g)"
  from assms(3) have bok: "board_ok g (board s)" and ms: "map_s s = ?m"
    and bnd: "\<And>p l. p < 2 \<Longrightarrow> l < ?w \<Longrightarrow> 0 \<le> stats s ! p ! l \<and> stats s ! p ! l \<le> 2 ^ occ ?m (board s) l"
    by (auto simp: potentials_ok_def)
  from dropPiece_effect [OF assms ok]
  obtain row where row: "row < rows g" "board s ! c ! row = none"
    and b': "board ?s' = (board s)[c := (board s ! c)[row := int player]]"
    and m': "map_s ?s' = map_s s"
    and len': "length (stats ?s') = 2" "length (score ?s') = 2"
      "length (stats ?s' ! player) = ?w" "length (stats ?s' ! other player) = ?w"
    and sp: "\<And>l. l < ?w \<Longrightarrow> stats ?s' ! player ! l
          = (if l \<in> set (map_s s ! c ! row) then 2 * stats s ! player ! l else stats s ! player ! l)"
    and so: "\<And>l. l < ?w \<Longrightarrow> stats ?s' ! other player ! l
          = (if l \<in> set (map_s s ! c ! row) then 0 else stats s ! other player ! l)"
    by blast
  from other_less2 [OF assms(4)] have o: "other player < 2" by simp
  have inb: "c < length (board s)" "row < length (board s ! c)"
    using bok assms(5) row(1) by (auto simp: board_ok_def)
  have mshape: "length ?m = cols g" "length (?m ! c) = rows g"
    using map_ok_setupMap [of g] assms(5) by (auto simp: map_ok_def)
  have occ': "occ ?m (board ?s') l = (if l \<in> set (?m ! c ! row) then Suc (occ ?m (board s) l) else occ ?m (board s) l)" for l
    unfolding b' using inb row assms(5) mshape
    by (subst occ_update) (simp_all add: none_def cells_of_iff)
  have len_all: "length (stats ?s' ! p) = ?w" if "p < 2" for p
    using two_players [OF assms(4) that] len' by auto
  have bound: "0 \<le> stats ?s' ! p ! l \<and> stats ?s' ! p ! l \<le> 2 ^ occ ?m (board ?s') l"
    if p: "p < 2" and l: "l < ?w" for p l
  proof -
    from two_players [OF assms(4) p] show ?thesis
    proof
      assume "p = player"
      then show ?thesis
        using bnd [OF assms(4) l] by (simp add: sp [OF l] occ' ms)
    next
      assume "p = other player"
      moreover have "(2::int) ^ occ ?m (board s) l \<le> 2 * 2 ^ occ ?m (board s) l"
        by simp
      ultimately show ?thesis
        using bnd [OF o l] by (simp add: so [OF l] occ' ms)
    qed
  qed
  show ?thesis
    unfolding potentials_ok_def
    using board_ok_update [OF bok] len' len_all bound by (simp add: b' m' ms)
qed

lemma score_inv_dropPiece:
  assumes "1 \<le> rows g" "connect g \<le> 30" "potentials_ok g s" "player < 2" "c < cols g"
    and "score_inv s"
  shows "score_inv (snd (dropPiece g player c s))"
proof (cases "fst (dropPiece g player c s) < 0")
  case True
  then show ?thesis using assms(6) by (simp add: dropPiece_fail)
next
  case False
  then have ok: "fst (dropPiece g player c s) \<ge> 0" by simp
  let ?s' = "snd (dropPiece g player c s)"
  let ?w = "snd (setupMap g)"
  from assms(3) have lens: "\<And>p. p < 2 \<Longrightarrow> length (stats s ! p) = ?w"
    by (auto simp: potentials_ok_def)
  from assms(6) have sums: "\<And>p. p < 2 \<Longrightarrow> score s ! p = sum_list (stats s ! p)"
    and excl: "\<And>l. l < ?w \<Longrightarrow> stats s ! 0 ! l \<noteq> 0 \<Longrightarrow> stats s ! 1 ! l \<noteq> 0
        \<Longrightarrow> stats s ! 0 ! l = 1 \<and> stats s ! 1 ! l = 1"
    using lens [of 0] by (auto simp: score_inv_def)
  from dropPiece_effect [OF assms(1-5) ok]
  obtain row where
    len': "length (stats ?s' ! player) = ?w" "length (stats ?s' ! other player) = ?w"
    and sp: "\<And>l. l < ?w \<Longrightarrow> stats ?s' ! player ! l
          = (if l \<in> set (map_s s ! c ! row) then 2 * stats s ! player ! l else stats s ! player ! l)"
    and so: "\<And>l. l < ?w \<Longrightarrow> stats ?s' ! other player ! l
          = (if l \<in> set (map_s s ! c ! row) then 0 else stats s ! other player ! l)"
    and sump: "score ?s' ! player - sum_list (stats ?s' ! player)
        = score s ! player - sum_list (stats s ! player)"
    and sumo: "score ?s' ! other player - sum_list (stats ?s' ! other player)
        = score s ! other player - sum_list (stats s ! other player)"
    by blast
  from other_less2 [OF assms(4)] have o: "other player < 2" by simp
  have sums': "score ?s' ! p = sum_list (stats ?s' ! p)" if "p < 2" for p
    using two_players [OF assms(4) that] sump sumo sums [OF assms(4)] sums [OF o] by auto
  have len0: "length (stats ?s' ! 0) = ?w"
    using two_players [OF assms(4), of 0] len' by auto
  have excl': "stats ?s' ! 0 ! l = 1 \<and> stats ?s' ! 1 ! l = 1"
    if l: "l < ?w" and nz: "stats ?s' ! 0 ! l \<noteq> 0" "stats ?s' ! 1 ! l \<noteq> 0" for l
  proof -
    have pl: "player = 0 \<and> other player = 1 \<or> player = 1 \<and> other player = 0"
      using assms(4) by (auto simp: less_2_cases_iff)
    then have notin: "l \<notin> set (map_s s ! c ! row)"
      using nz so [OF l] by auto
    then have "stats ?s' ! 0 ! l = stats s ! 0 ! l" "stats ?s' ! 1 ! l = stats s ! 1 ! l"
      using pl sp [OF l] so [OF l] by auto
    with excl [OF l] nz show ?thesis by simp
  qed
  show ?thesis
    unfolding score_inv_def using sums' excl' len0 by simp
qed

lemma score_monotone_dropPiece:
  assumes "1 \<le> rows g" "connect g \<le> 30" "potentials_ok g s" "player < 2" "c < cols g"
    and "fst (dropPiece g player c s) \<ge> 0"
  shows "score s ! player \<le> score (snd (dropPiece g player c s)) ! player
    \<and> score (snd (dropPiece g player c s)) ! other player \<le> score s ! other player"
  using dropPiece_effect [OF assms] by blast

lemma potentials_ok_initial:
  assumes "1 \<le> connect g"
  shows "potentials_ok g (Connect4Game g)" "score_inv (Connect4Game g)"
proof -
  have w: "nat (findWinningPlaces g) = snd (setupMap g)"
    using setupMap_count [OF assms] by simp
  have p01: "p < 2 \<Longrightarrow> [replicate n (1::int), replicate n 1] ! p = replicate n 1" for p n
    by (auto simp: less_2_cases_iff)
  show "potentials_ok g (Connect4Game g)"
    unfolding potentials_ok_def
    by (simp add: Connect4Game_def board_ok_setupBoard setupPlayerStats_def w p01)
  have "sum_list (replicate (snd (setupMap g)) (1::int)) = findWinningPlaces g"
    using setupMap_count [OF assms] by (simp add: sum_list_replicate)
  moreover have "p < 2 \<Longrightarrow> [findWinningPlaces g, findWinningPlaces g] ! p = findWinningPlaces g" for p
    by (auto simp: less_2_cases_iff)
  ultimately show "score_inv (Connect4Game g)"
    unfolding score_inv_def
    by (simp add: Connect4Game_def setupPlayerStats_def w p01)
qed

lemma invariants_play:
  assumes "1 \<le> cols g" "1 \<le> rows g" "1 \<le> connect g" "connect g \<le> 30"
    and "\<forall>(player, column)\<in>set ms. player < 2"
  shows "potentials_ok g (play g ms (Connect4Game g)) \<and> score_inv (play g ms (Connect4Game g))"
proof (rule play_invariant [OF _ _ assms(5)])
  show "potentials_ok g (Connect4Game g) \<and> score_inv (Connect4Game g)"
    using potentials_ok_initial [OF assms(3)] by simp
next
  fix s :: gstate and player c :: nat
  assume "potentials_ok g s \<and> score_inv s" "player < 2" "c < cols g"
  then show "potentials_ok g (snd (dropPiece g player c s)) \<and> score_inv (snd (dropPiece g player c s))"
    using assms(2,4) by (simp add: potentials_ok_dropPiece score_inv_dropPiece)
qed

section \<open>Evaluating the map\<close>

lemma fold_push_cells:
  "fold (\<lambda>k m. push_win m (fst (cell k)) (snd (cell k)) w) ks m = push_cells m (map cell ks) w"
proof (induction ks arbitrary: m)
  case Nil
  show ?case by simp
next
  case (Cons k ks)
  obtain x y where c: "cell k = (x, y)" by (cases "cell k")
  show ?case by (simp add: c Cons.IH)
qed

lemma add_line_add_cells: "add_line cell n mw = add_cells (map cell [0..<n]) mw"
  by (cases mw) (simp add: add_line_def fold_push_cells)

lemma fold_add_line:
  "fold (\<lambda>j. add_line (cell j) n) js mw = fold add_cells (map (\<lambda>j. map (cell j) [0..<n]) js) mw"
  by (induction js arbitrary: mw) (simp_all add: add_line_add_cells)

lemma fold_fold_add_line:
  "fold (\<lambda>i. fold (\<lambda>j. add_line (cell i j) n) js) is mw
     = fold add_cells (concat (map (\<lambda>i. map (\<lambda>j. map (cell i j) [0..<n]) js) is)) mw"
  by (induction "is" arbitrary: mw) (simp_all add: fold_add_line)

lemma setupMap_all_lines:
  "setupMap g = fold add_cells (all_lines g) (replicate (cols g) (replicate (rows g) []), 0)"
  by (simp add: setupMap_def all_lines_def horizontal_def vertical_def forward_diagonal_def
      backward_diagonal_def fold_fold_add_line)

declare setupMap_all_lines [code]


lemma play_standard:
  "score (Connect4Game standard) = [69, 69]
   \<and> score (play standard [(0, 3)] (Connect4Game standard)) = [76, 62]
   \<and> dropPiece standard 1 3 (play standard [(0, 3)] (Connect4Game standard))
       = (1, play standard [(0, 3), (1, 3)] (Connect4Game standard))
   \<and> score (play standard [(0, 3), (1, 3)] (Connect4Game standard)) = [65, 71]"
  by code_simp

section \<open>Scores and potentials\<close>




text \<open>
  \<^bold>\<open>C1.\<close> The claim: a successful drop never lowers \<open>score[0] + score[1]\<close>. On the
  standard board, after player 0 has played the centre column, the sum is 138; player 1's
  piece on top of it lands in row 1 and the sum is 136.
\<close>

theorem score_sum_decreases:
  "fst (dropPiece standard 1 3 (play standard [(0, 3)] (Connect4Game standard))) = 1
   \<and> score (play standard [(0, 3)] (Connect4Game standard)) ! 0
       + score (play standard [(0, 3)] (Connect4Game standard)) ! 1 = 138
   \<and> score (snd (dropPiece standard 1 3 (play standard [(0, 3)] (Connect4Game standard)))) ! 0
       + score (snd (dropPiece standard 1 3 (play standard [(0, 3)] (Connect4Game standard)))) ! 1
       = 136"
  using play_standard by (simp del: play.simps)

text \<open>
  Amended: in a game with at most 30 to connect, a successful drop in a reachable state
  never lowers the score of the player who moved and never raises the opponent's score.
  (The sum of the two may fall, as above.)
\<close>

theorem drop_raises_mover_lowers_opponent:
  assumes "1 \<le> cols g" "1 \<le> rows g" "1 \<le> connect g" "connect g \<le> 30"
    and "\<forall>(player, column)\<in>set ms. player < 2"
    and "player < 2" "c < cols g"
    and "fst (dropPiece g player c (play g ms (Connect4Game g))) \<ge> 0"
  shows "score (play g ms (Connect4Game g)) ! player
           \<le> score (snd (dropPiece g player c (play g ms (Connect4Game g)))) ! player
       \<and> score (snd (dropPiece g player c (play g ms (Connect4Game g)))) ! other player
           \<le> score (play g ms (Connect4Game g)) ! other player"
proof -
  from invariants_play [OF assms(1-5)] have "potentials_ok g (play g ms (Connect4Game g))"
    by simp
  from score_monotone_dropPiece [OF assms(2,4) this assms(6,7,8)] show ?thesis .
qed

theorem drop_raises_mover_lowers_opponent_witness:
  "score (play standard [(0, 3)] (Connect4Game standard)) = [76, 62]
   \<and> score (snd (dropPiece standard 1 3 (play standard [(0, 3)] (Connect4Game standard)))) = [65, 71]
   \<and> score (play standard [(0, 3)] (Connect4Game standard)) ! 1
       \<le> score (snd (dropPiece standard 1 3 (play standard [(0, 3)] (Connect4Game standard)))) ! 1
   \<and> score (snd (dropPiece standard 1 3 (play standard [(0, 3)] (Connect4Game standard)))) ! other 1
       \<le> score (play standard [(0, 3)] (Connect4Game standard)) ! other 1"
proof -
  have g: "1 \<le> cols standard" "1 \<le> rows standard" "1 \<le> connect standard" "connect standard \<le> 30"
    by (simp_all add: standard_def)
  have p: "\<forall>(player, column)\<in>set [(0, 3 :: rat)]. player < (2::nat)" by simp
  have q: "(1::nat) < 2" "3 < cols standard" by (simp_all add: standard_def)
  have ok: "fst (dropPiece standard 1 3 (play standard [(0, 3)] (Connect4Game standard))) \<ge> 0"
    using play_standard by (simp del: play.simps)
  from drop_raises_mover_lowers_opponent [OF g p q ok] play_standard show ?thesis
    by (simp del: play.simps)
qed

section \<open>Properties of the search\<close>

lemma MAX_VALUE_numeral [code]:
  "MAX_VALUE = 179769313486231570814527423731704356798070567525844996598917476803157260780028538760589558632766878171540458953514382464234321326889464182768467546703537516986049910576551282076245490090389328944075868508455133942304583236903222948165808559332123348274797826204144723168738177180919299881250404026184124858368"
  by (simp add: MAX_VALUE_def)

subsection \<open>The opening shortcut\<close>

lemma standard_after_centre:
  "numberOfPieces (play standard [(0, 3)] (Connect4Game standard)) = 1
   \<and> board (play standard [(0, 3)] (Connect4Game standard)) ! 3 ! 0 = 0
   \<and> num_of_pieces (c_play standard [(0, 3)] (c4_new_game standard)) = 1
   \<and> c_board (c_play standard [(0, 3)] (c4_new_game standard)) ! 3 ! 0 = 0
   \<and> num_of_pieces (c_play standard [(0, 0)] (c4_new_game standard)) = 1
   \<and> c_board (c_play standard [(0, 0)] (c4_new_game standard)) ! 3 ! 0 = 2"
  by code_simp

lemma opening_shortcut_only_standard:
  "opening_shortcut g s \<Longrightarrow> cols g = 7 \<and> rows g = 6 \<and> connect g = 4 \<and> numberOfPieces s < 2"
  by (simp add: opening_shortcut_def)

lemma opening_shortcut_fires:
  "cols g = 7 \<Longrightarrow> rows g = 6 \<Longrightarrow> connect g = 4 \<Longrightarrow>
   numberOfPieces s = 0 \<or> numberOfPieces s = 1 \<and> (board s ! 3 ! 0 = 0 \<or> board s ! 3 ! 0 = 1) \<Longrightarrow>
   opening_shortcut g s"
  by (auto simp: opening_shortcut_def)

lemma autoMove_shortcut:
  "opening_shortcut g (currentState st) \<Longrightarrow>
   autoMove fuel g player ai rnd st = Some (makeMove_st g player 3 st)"
  by (simp add: autoMove_def)

lemma c_opening_shortcut_iff:
  "c_opening_shortcut g cs \<longleftrightarrow>
     cols g = 7 \<and> rows g = 6 \<and> connect g = 4 \<and> num_of_pieces cs < 2 \<and>
     (num_of_pieces cs = 0 \<or> c_board cs ! 3 ! 0 \<noteq> C4_NONE)"
  by (auto simp: c_opening_shortcut_def)

text \<open>
  \<^bold>\<open>C2.\<close> The claim: \<open>autoMove\<close> plays column 3 without search exactly when the board is
  the standard one, at most one piece has been played and the bottom cell of the centre
  column is unoccupied. On the standard board, after one piece in the centre column, that
  cell is occupied and the shortcut fires, in the JavaScript port (with no fuel for a search,
  \<open>autoMove\<close> returns column 3) and in the C original. After one piece in column 0 the cell
  is unoccupied and the C original's shortcut does not fire.
\<close>

theorem opening_shortcut_with_centre_occupied:
  "opening_shortcut standard (play standard [(0, 3)] (Connect4Game standard))
   \<and> board (play standard [(0, 3)] (Connect4Game standard)) ! 3 ! 0 \<noteq> none
   \<and> chosen_column (autoMove 0 standard 1 4 (coins 0 0) [play standard [(0, 3)] (Connect4Game standard)])
       = Some 3
   \<and> c_opening_shortcut standard (c_play standard [(0, 3)] (c4_new_game standard))
   \<and> c_board (c_play standard [(0, 3)] (c4_new_game standard)) ! 3 ! 0 \<noteq> C4_NONE
   \<and> \<not> c_opening_shortcut standard (c_play standard [(0, 0)] (c4_new_game standard))
   \<and> c_board (c_play standard [(0, 0)] (c4_new_game standard)) ! 3 ! 0 = C4_NONE"
  by code_simp

text \<open>
  Amended: the shortcut fires only on the standard 7 by 6 connect-4 board with fewer than
  two pieces played, never for another geometry. On that board it fires when no piece has
  been played, and when one piece has been played and the bottom cell of the centre column
  holds a piece. When it fires, \<open>autoMove\<close> is \<open>makeMove\<close> of column 3: no search, whatever
  the level and the random numbers. The same holds of the condition in the C original.
\<close>

theorem opening_shortcut_when:
  "(opening_shortcut g s \<longrightarrow> cols g = 7 \<and> rows g = 6 \<and> connect g = 4 \<and> numberOfPieces s < 2)
   \<and> (cols g = 7 \<and> rows g = 6 \<and> connect g = 4
        \<and> (numberOfPieces s = 0 \<or> numberOfPieces s = 1 \<and> (board s ! 3 ! 0 = 0 \<or> board s ! 3 ! 0 = 1))
      \<longrightarrow> opening_shortcut g s)
   \<and> (opening_shortcut g (currentState st)
      \<longrightarrow> autoMove fuel g player ai rnd st = Some (makeMove_st g player 3 st))
   \<and> (c_opening_shortcut g cs \<longrightarrow> cols g = 7 \<and> rows g = 6 \<and> connect g = 4 \<and> num_of_pieces cs < 2)
   \<and> (cols g = 7 \<and> rows g = 6 \<and> connect g = 4
        \<and> (num_of_pieces cs = 0
            \<or> num_of_pieces cs = 1 \<and> (c_board cs ! 3 ! 0 = 0 \<or> c_board cs ! 3 ! 0 = 1))
      \<longrightarrow> c_opening_shortcut g cs)"
  using opening_shortcut_only_standard [of g s] opening_shortcut_fires [of g s]
    autoMove_shortcut [of g st fuel player ai rnd]
  by (auto simp: c_opening_shortcut_iff C4_NONE_def)

theorem opening_shortcut_when_witness:
  "opening_shortcut standard (play standard [(0, 3)] (Connect4Game standard))
   \<and> autoMove 0 standard 1 4 (coins 0 0) [play standard [(0, 3)] (Connect4Game standard)]
       = Some (makeMove_st standard 1 3 [play standard [(0, 3)] (Connect4Game standard)])
   \<and> c_opening_shortcut standard (c_play standard [(0, 3)] (c4_new_game standard))"
proof -
  let ?s = "play standard [(0, 3)] (Connect4Game standard)"
  let ?cs = "c_play standard [(0, 3)] (c4_new_game standard)"
  have g: "cols standard = 7" "rows standard = 6" "connect standard = 4"
    by (simp_all add: standard_def)
  note w = opening_shortcut_when [of standard ?s "[?s]" 0 1 4 "coins 0 0" ?cs]
  have js: "opening_shortcut standard ?s"
    using w g standard_after_centre by (simp del: play.simps)
  then have "opening_shortcut standard (currentState [?s])"
    by (simp add: currentState_def del: play.simps)
  with w have am: "autoMove 0 standard 1 4 (coins 0 0) [?s] = Some (makeMove_st standard 1 3 [?s])"
    by blast
  have c: "c_opening_shortcut standard ?cs"
    using w g standard_after_centre by (simp del: c_play.simps)
  from js am c show ?thesis by blast
qed


subsection \<open>Equally good candidates\<close>

lemma three_candidates_tie:
  "root_loop 1 game_3x1 0 2 (coins 0 0) [1] 0 (- 1, - MAX_VALUE) [Connect4Game game_3x1]
     = Some (Inr (1, [Connect4Game game_3x1]))
   \<and> goodnessOf (play game_3x1 [(0, 1)] (Connect4Game game_3x1)) 0 = 2
   \<and> goodnessOf (play game_3x1 [(0, 2)] (Connect4Game game_3x1)) 0 = 2
   \<and> goodnessOf (play game_3x1 [(0, 0)] (Connect4Game game_3x1)) 0 = 2
   \<and> setupDropOrder game_3x1 = [1, 2, 0]"
  by code_simp

text \<open>
  \<^bold>\<open>C3.\<close> The claim: among equally good candidates the root loop keeps a count of the
  ties and replaces the best column with probability 1 / count, so that each of \<open>k\<close> tied
  candidates is as likely as the others. On a row of three cells with three to connect
  every first move has goodness 2 (\<open>three_candidates_tie\<close>); the candidates come in the
  order 1, 2, 0. The JavaScript port draws one coin for the second and one for the third
  candidate. Of the four equally likely pairs of coins, two choose column 0, the third
  candidate: its chance is 1/2, not 1/3, and columns 1 and 2 have 1/4 each.
\<close>

theorem tie_break_three_candidates:
  "chosen_column (autoMove 1 game_3x1 0 2 (coins 0 0) [Connect4Game game_3x1]) = Some 1
   \<and> chosen_column (autoMove 1 game_3x1 0 2 (coins 0 1) [Connect4Game game_3x1]) = Some 0
   \<and> chosen_column (autoMove 1 game_3x1 0 2 (coins 1 0) [Connect4Game game_3x1]) = Some 2
   \<and> chosen_column (autoMove 1 game_3x1 0 2 (coins 1 1) [Connect4Game game_3x1]) = Some 0"
  by code_simp

lemma root_compare_tie:
  "root_compare (bestColumn, w) column w coin
     = (if bestColumn = - 1 \<or> coin > 0 then column else bestColumn, w)"
  by (simp add: root_compare_def)

lemma root_compare_coin_count:
  assumes "bestColumn \<noteq> - 1" "column \<noteq> bestColumn"
  shows "card {coin \<in> {0, 1}. fst (root_compare (bestColumn, w) column w coin) = column} = 1"
proof -
  have "{coin \<in> {0, 1}. fst (root_compare (bestColumn, w) column w coin) = column} = {1::nat}"
    using assms by (auto simp: root_compare_tie)
  then show ?thesis by simp
qed

lemma c_root_compare_tie:
  "c_root_compare (best_column, w, num_of_equal) column w r
     = (if (of_nat (r mod 10000) :: rat) < (1 / of_int (num_of_equal + 1)) * 10000
        then column else best_column, w, num_of_equal + 1)"
  by (simp add: c_root_compare_def Let_def)

lemma c_replace_iff:
  assumes "0 \<le> k" "r < 10000"
  shows "(of_nat (r mod 10000) :: rat) < (1 / of_int (k + 1)) * 10000 \<longleftrightarrow> r < 9999 div nat (k + 1) + 1"
proof -
  define K where "K = nat (k + 1)"
  have K: "0 < K" "(of_int k :: rat) + 1 = of_nat K"
    using assms(1) by (simp_all add: K_def)
  have "(of_nat (r mod 10000) :: rat) < (1 / of_int (k + 1)) * 10000
      \<longleftrightarrow> (of_nat r :: rat) < 10000 / of_nat K"
    using assms(2) by (simp add: K(2))
  also have "\<dots> \<longleftrightarrow> (of_nat r :: rat) * of_nat K < 10000"
    using K(1) by (simp add: pos_less_divide_eq)
  also have "\<dots> \<longleftrightarrow> (of_nat (r * K) :: rat) < of_nat 10000"
    by simp
  also have "\<dots> \<longleftrightarrow> r * K < 10000"
    by (simp only: of_nat_less_iff)
  also have "\<dots> \<longleftrightarrow> r * K \<le> 9999"
    by auto
  also have "\<dots> \<longleftrightarrow> r \<le> 9999 div K"
    using K(1) by (simp add: less_eq_div_iff_mult_less_eq)
  finally show ?thesis
    by (auto simp: K_def)
qed

lemma c_root_compare_residue_count:
  assumes "0 \<le> k" "column \<noteq> best_column"
  shows "card {r \<in> {0..<10000}. fst (c_root_compare (best_column, w, k) column w r) = column}
     = 9999 div nat (k + 1) + 1"
proof -
  have lt: "r < 10000" if "r < 9999 div nat (k + 1) + 1" for r
    using that div_le_dividend [of 9999 "nat (k + 1)"] by linarith
  have iff: "fst (c_root_compare (best_column, w, k) column w r) = column
      \<longleftrightarrow> r < 9999 div nat (k + 1) + 1" if r: "r < 10000" for r
  proof -
    let ?P = "(of_nat (r mod 10000) :: rat) < (1 / of_int (k + 1)) * 10000"
    have "fst (c_root_compare (best_column, w, k) column w r) = (if ?P then column else best_column)"
      by (simp only: c_root_compare_tie fst_conv)
    then have "fst (c_root_compare (best_column, w, k) column w r) = column \<longleftrightarrow> ?P"
      using assms(2) by (simp only: split: if_splits) auto
    also have "?P \<longleftrightarrow> r < 9999 div nat (k + 1) + 1"
      by (rule c_replace_iff [OF assms(1) r])
    finally show ?thesis .
  qed
  have "{r \<in> {0..<10000}. fst (c_root_compare (best_column, w, k) column w r) = column}
      = {0..<9999 div nat (k + 1) + 1}"
  proof (intro set_eqI iffI)
    fix r
    assume "r \<in> {r \<in> {0..<10000}. fst (c_root_compare (best_column, w, k) column w r) = column}"
    then show "r \<in> {0..<9999 div nat (k + 1) + 1}"
      using iff [of r] by simp
  next
    fix r
    assume "r \<in> {0..<9999 div nat (k + 1) + 1}"
    then have r: "r < 9999 div nat (k + 1) + 1" by simp
    from lt [OF r] iff [OF lt [OF r]] r
    show "r \<in> {r \<in> {0..<10000}. fst (c_root_compare (best_column, w, k) column w r) = column}"
      by simp
  qed
  then show ?thesis by simp
qed


text \<open>
  Amended: at an exact tie the JavaScript port keeps no count; it takes the candidate when
  no best column is set, and otherwise for one of the two values of
  \<^verbatim>\<open>Math.floor(Math.random()*2)\<close>, whatever the number of ties. The C original keeps the
  count \<open>num_of_equal\<close> (1 at a strictly better candidate, one more at each tie) and takes the
  candidate when \<^verbatim>\<open>rand() % 10000\<close> is below \<open>10000 / num_of_equal\<close>: for
  \<open>9999 div k + 1\<close> of the 10000 residues at the \<open>k\<close>-th equally good candidate.
\<close>

theorem tie_break_rules:
  "(root_compare (bestColumn, w) column w coin
      = (if bestColumn = - 1 \<or> coin > 0 then column else bestColumn, w))
   \<and> (bestColumn \<noteq> - 1 \<and> column \<noteq> bestColumn
      \<longrightarrow> card {coin \<in> {0, 1}. fst (root_compare (bestColumn, w) column w coin) = column} = 1)
   \<and> (goodness > w \<longrightarrow> c_root_compare (best_column, w, k) c_column goodness r = (c_column, goodness, 1))
   \<and> snd (snd (c_root_compare (best_column, w, k) c_column w r)) = k + 1
   \<and> (0 \<le> k \<and> c_column \<noteq> best_column
      \<longrightarrow> card {r \<in> {0..<10000}. fst (c_root_compare (best_column, w, k) c_column w r) = c_column}
          = 9999 div nat (k + 1) + 1)"
  using root_compare_coin_count [of bestColumn column w]
    c_root_compare_residue_count [of k c_column best_column w]
  by (simp add: root_compare_tie c_root_compare_tie) (simp add: c_root_compare_def)

theorem tie_break_rules_witness:
  "root_compare (1, 2) 0 2 0 = (1, 2) \<and> root_compare (1, 2) 0 2 1 = (0, 2)
   \<and> card {coin \<in> {0, 1}. fst (root_compare (1, 2) 0 2 coin) = 0} = 1
   \<and> c_root_compare (1, 2, 2) 0 2 3333 = (0, 2, 3) \<and> c_root_compare (1, 2, 2) 0 2 3334 = (1, 2, 3)
   \<and> card {r \<in> {0..<10000}. fst (c_root_compare (1, 2, 2) 0 2 r) = 0} = 3334"
proof -
  note t = tie_break_rules [of 1 2 0 _ 3 1 2 0 _]
  have a: "(1::rat) \<noteq> - 1 \<and> (0::rat) \<noteq> 1" "(0::int) \<le> 2 \<and> (0::int) \<noteq> 1" by simp_all
  have c: "card {coin \<in> {0, 1}. fst (root_compare (1, 2) 0 2 coin) = 0} = 1"
    using t a(1) by blast
  have r: "card {r \<in> {0..<10000}. fst (c_root_compare (1, 2, 2) 0 2 r) = 0} = 9999 div nat (2 + 1) + 1"
    using t a(2) by blast
  have e: "root_compare (1, 2) 0 2 0 = (1, 2)" "root_compare (1, 2) 0 2 1 = (0, 2)"
    "c_root_compare (1, 2, 2) 0 2 3333 = (0, 2, 3)" "c_root_compare (1, 2, 2) 0 2 3334 = (1, 2, 3)"
    by (simp_all add: root_compare_def c_root_compare_def)
  from c r e show ?thesis by simp
qed

subsection \<open>The value of a win\<close>

lemma bitlen_eq: "2 ^ n \<le> a \<Longrightarrow> a < 2 ^ Suc n \<Longrightarrow> bitlen a = Suc n"
proof (induction n arbitrary: a)
  case 0
  then have "a = 1" by simp
  then show ?case by (simp add: bitlen.simps [of "Suc 0"] bitlen.simps [of 0])
next
  case (Suc n)
  have "2 ^ n \<le> a div 2" "a div 2 < 2 ^ Suc n"
    using Suc.prems by auto
  from Suc.IH [OF this] Suc.prems show ?case
    by (simp add: bitlen.simps [of a])
qed


lemma round_double_eval:
  assumes "bitlen (nat \<bar>x\<bar>) = 53 + e" "0 < e"
  shows "round_double x =
     sgn x * int ((if 2 * (nat \<bar>x\<bar> mod 2 ^ e) < 2 ^ e
                      \<or> (2 * (nat \<bar>x\<bar> mod 2 ^ e) = 2 ^ e \<and> even (nat \<bar>x\<bar> div 2 ^ e))
                   then nat \<bar>x\<bar> div 2 ^ e else nat \<bar>x\<bar> div 2 ^ e + 1) * 2 ^ e)"
  using assms by (simp add: round_double_def Let_def)

lemma round_double_absorbs:
  assumes "0 \<le> d" "d \<le> 1000"
  shows "round_double (MAX_VALUE - d) = MAX_VALUE"
proof -
  define E :: nat where "E = 2 ^ 971"
  define k :: nat where "k = nat d"
  have E: "2048 \<le> E"
    unfolding E_def using power_increasing [of 11 971 "2::nat"] by simp
  have k: "k \<le> 1000" "d = int k"
    using assms by (simp_all add: k_def)
  have M: "MAX_VALUE = int (9007199254740991 * E)"
    unfolding MAX_VALUE_def E_def by simp
  have a: "nat \<bar>MAX_VALUE - d\<bar> = 9007199254740991 * E - k"
    using E k unfolding M by simp
  have p1023: "(2::nat) ^ 1023 = 4503599627370496 * E"
    unfolding E_def by simp
  have p1024: "(2::nat) ^ Suc 1023 = 9007199254740992 * E"
    unfolding E_def by simp
  have len: "bitlen (nat \<bar>MAX_VALUE - d\<bar>) = Suc 1023"
    unfolding a
  proof (rule bitlen_eq)
    show "2 ^ 1023 \<le> 9007199254740991 * E - k"
      unfolding p1023 using E k by simp
    show "9007199254740991 * E - k < 2 ^ Suc 1023"
      unfolding p1024 using E k by simp
  qed
  then have len': "bitlen (nat \<bar>MAX_VALUE - d\<bar>) = 53 + 971"
    by simp
  note rd = round_double_eval [OF len', unfolded E_def [symmetric] a]
  have sg: "sgn (MAX_VALUE - d) = 1"
    using E k unfolding M by simp
  show ?thesis
  proof (cases "k = 0")
    case True
    then show ?thesis
      using rd sg by (simp add: M k)
  next
    case False
    have split: "9007199254740991 * E - k = 9007199254740990 * E + (E - k)"
      using E k by simp
    have small: "E - k < E"
      using False E by simp
    have dv: "(9007199254740991 * E - k) div E = 9007199254740990"
      unfolding split using small E by simp
    have md: "(9007199254740991 * E - k) mod E = E - k"
      unfolding split using small by simp
    have big: "\<not> 2 * (E - k) < E" "2 * (E - k) \<noteq> E"
      using E k by simp_all
    show ?thesis
      using rd sg big by (simp add: M k dv md)
  qed
qed


lemma win_value_absorbs: "0 \<le> depth \<Longrightarrow> depth \<le> 1000 \<Longrightarrow> win_value depth = MAX_VALUE"
  by (simp add: win_value_def js_minus_def round_double_absorbs)

lemma c_win_value_exact:
  assumes "0 \<le> depth" "depth \<le> INT_MAX"
  shows "c_win_value depth = INT_MAX - depth"
proof -
  have "c_win_value depth = sint (word_of_int (INT_MAX - depth) :: 32 word)"
    by (simp add: c_win_value_def)
  also have "\<dots> = signed_take_bit 31 (INT_MAX - depth)"
    by (simp only: sint_sbintrunc') simp
  also have "\<dots> = INT_MAX - depth"
    using assms by (intro signed_take_bit_int_eq_self) (simp_all add: INT_MAX_def)
  finally show ?thesis .
qed

text \<open>In the C original a win at a smaller depth is worth strictly more.\<close>

lemma c_win_value_strict:
  assumes "0 \<le> d1" "d1 < d2" "d2 \<le> INT_MAX"
  shows "c_win_value d2 < c_win_value d1"
  using assms by (simp add: c_win_value_exact)

text \<open>Where the value is used: a winning drop of the other player found by the loop of
  \<open>evaluate\<close> at stack depth \<open>depth\<close>, better than what was found before and above \<open>beta\<close>,
  ends the loop with the value \<open>- win_value depth\<close>.\<close>

lemma evaluate_loop_win:
  assumes "dropPiece_st g (other player) column (pushState st) = Inr (row, st2)" "0 \<le> row"
    and "winner (currentState st2) = int (other player)"
    and "best < win_value depth" "beta < win_value depth"
  shows "evaluate_loop fuel g player level beta depth (column # rest) (best, maxab) st
     = Some (Inr (- win_value depth, popState st2))"
  using assms by simp

text \<open>
  \<^bold>\<open>C8.\<close> The claim: a winning drop is valued as a very large constant minus the stack
  depth, so that a win at a smaller depth is worth strictly more. In the C original the
  value is \<^verbatim>\<open>INT_MAX - depth\<close> and the claim holds (\<open>c_win_value_strict\<close>). In the
  JavaScript port the constant is \<^verbatim>\<open>Number.MAX_VALUE\<close>, a double whose neighbours are
  \<open>2^971\<close> apart: subtracting a depth leaves it as it is (\<open>win_value_absorbs\<close>), and wins at
  depths 2 and 3 are worth the same.
\<close>

theorem win_value_ignores_depth:
  "win_value 2 = MAX_VALUE \<and> win_value 3 = MAX_VALUE \<and> \<not> win_value 3 < win_value 2
   \<and> c_win_value 2 = 2147483645 \<and> c_win_value 3 = 2147483644"
  by (simp add: win_value_absorbs c_win_value_exact INT_MAX_def)

section \<open>The state stack\<close>








end
